theory Spec2Isabelle
  imports Main "HOL-Library.Word"
begin

section \<open>The input stream\<close>

text \<open>
  Both headers read \<^verbatim>\<open>stdin\<close> through
  \<^verbatim>\<open>fread(ybuf,1,sizeof(ybuf),stdin)\<close> only. The stream is modelled by the
  data that the successive calls of \<^verbatim>\<open>fread\<close> deliver: \<open>chunks\<close> holds one
  entry per call still to come (each at most \<^verbatim>\<open>YSCANF_BUFFER_SIZE\<close> bytes long),
  an empty entry is a call that reports zero bytes, and a stream with no entry left
  reports zero bytes for ever. \<open>freads\<close> counts the calls made so far.
\<close>

record cfile =
  chunks :: "string list"
  freads :: nat

definition fread :: "cfile \<Rightarrow> string \<times> cfile" where
  "fread f =
     (case chunks f of
        [] \<Rightarrow> ([], f\<lparr>freads := freads f + 1\<rparr>)
      | c # cs \<Rightarrow> (c, f\<lparr>chunks := cs, freads := freads f + 1\<rparr>))"

text \<open>\<^verbatim>\<open>EOF\<close> of \<^verbatim>\<open>stdio.h\<close>: a negative \<^verbatim>\<open>int\<close>, \<open>-1\<close> in the C libraries in use.\<close>

definition EOF :: int where
  "EOF = - 1"

text \<open>\<^verbatim>\<open>isspace\<close> of \<^verbatim>\<open>ctype.h\<close> in the "C" locale: space, \<^verbatim>\<open>\t \n \v \f \r\<close>.\<close>

definition isspace :: "int \<Rightarrow> bool" where
  "isspace c \<longleftrightarrow> c = 32 \<or> (9 \<le> c \<and> c \<le> 13)"

section \<open>Version 3.0 (\<^verbatim>\<open>yscanf3.h\<close>): buffer and core input\<close>

text \<open>
  The globals \<^verbatim>\<open>ybuf\<close>, \<^verbatim>\<open>yptr\<close>, \<^verbatim>\<open>yend\<close>, \<^verbatim>\<open>yeof\<close>, together with
  \<^verbatim>\<open>stdin\<close>. The two pointers are kept as offsets into \<open>ybuf\<close>;
  \<^verbatim>\<open>fread\<close> overwrites the front of \<open>ybuf\<close> with the bytes it delivers.
\<close>

record ystate =
  ybuf :: string
  yptr :: nat
  yend :: nat
  yeof :: bool
  stdin :: cfile

definition yget :: "ystate \<Rightarrow> int \<times> ystate" where
  "yget s =
     (if yptr s \<ge> yend s then
        (if yeof s then (EOF, s)
         else
           (let (data, f) = fread (stdin s); len = length data; s1 = s\<lparr>stdin := f\<rparr> in
            if len = 0 then (EOF, s1\<lparr>yeof := True\<rparr>)
            else
              (let s2 = s1\<lparr>ybuf := data @ drop len (ybuf s1), yptr := 0, yend := len\<rparr>
               in (int (of_char (ybuf s2 ! yptr s2)), s2\<lparr>yptr := yptr s2 + 1\<rparr>))))
      else (int (of_char (ybuf s ! yptr s)), s\<lparr>yptr := yptr s + 1\<rparr>))"

definition ypeek :: "ystate \<Rightarrow> int \<times> ystate" where
  "ypeek s =
     (if yptr s \<ge> yend s then
        (if yeof s then (EOF, s)
         else
           (let (data, f) = fread (stdin s); len = length data; s1 = s\<lparr>stdin := f\<rparr> in
            if len = 0 then (EOF, s1\<lparr>yeof := True\<rparr>)
            else
              (let s2 = s1\<lparr>ybuf := data @ drop len (ybuf s1), yptr := 0, yend := len\<rparr>
               in (int (of_char (ybuf s2 ! yptr s2)), s2))))
      else (int (of_char (ybuf s ! yptr s)), s))"

text \<open>The state at program start: empty buffer, \<^verbatim>\<open>yeof=0\<close>, nothing read yet.\<close>

definition ystart :: "string list \<Rightarrow> ystate" where
  "ystart cs = \<lparr>ybuf = [], yptr = 0, yend = 0, yeof = False,
                stdin = \<lparr>chunks = cs, freads = 0\<rparr>\<rparr>"

text \<open>
  The bytes that are still to be delivered, counted for the termination of the loops:
  the unread part of the buffer and everything the stream still holds.
\<close>

definition ybytes :: "ystate \<Rightarrow> nat" where
  "ybytes s = (yend s - yptr s) + length (concat (chunks (stdin s)))"

lemma of_char_not_EOF: "int (of_char c) \<noteq> EOF"
  by (simp add: EOF_def)

lemma ypeek_ybytes: "ybytes (snd (ypeek s)) = ybytes s"
  by (auto simp: ypeek_def ybytes_def fread_def Let_def split: list.splits)

lemma ypeek_window:
  "ypeek s = (c, s1) \<Longrightarrow> c \<noteq> EOF \<Longrightarrow> yptr s1 < yend s1"
  by (auto simp: ypeek_def fread_def Let_def split: list.splits if_splits)

lemma yget_ybytes_le: "ybytes (snd (yget s)) \<le> ybytes s"
  by (auto simp: yget_def ybytes_def fread_def Let_def split: list.splits)

lemma yget_ybytes_less:
  "yget s = (c, s1) \<Longrightarrow> c \<noteq> EOF \<Longrightarrow> ybytes s1 < ybytes s"
  by (auto simp: yget_def ybytes_def fread_def Let_def split: list.splits if_splits)

lemma ypeek_yget_ybytes:
  assumes "ypeek s = (c, s1)" and "c \<noteq> EOF"
  shows "ybytes (snd (yget s1)) < ybytes s"
proof -
  obtain d s2 where g: "yget s1 = (d, s2)" by (cases "yget s1")
  from assms have "yptr s1 < yend s1" by (rule ypeek_window)
  then have "d \<noteq> EOF" using g by (auto simp: yget_def of_char_not_EOF)
  with g have "ybytes s2 < ybytes s1" by (rule yget_ybytes_less)
  moreover have "ybytes s1 = ybytes s" using ypeek_ybytes [of s] assms(1) by simp
  ultimately show ?thesis using g by simp
qed

function yskip_space :: "ystate \<Rightarrow> ystate" where
  "yskip_space s =
     (let (c, s1) = ypeek s in
      if c \<noteq> EOF \<and> isspace c then yskip_space (snd (yget s1)) else s1)"
  by pat_completeness auto
termination
  by (relation "measure ybytes") (auto intro: ypeek_yget_ybytes [OF sym])

declare yskip_space.simps [simp del]

section \<open>Version 3.0: readers\<close>

text \<open>
  What a reader stores through its pointer argument. The caller's output slots are a
  list \<open>mem\<close> of such values, a pointer is an index into it, and a store through
  pointer \<open>p\<close> is \<open>mem[p := v]\<close>. (A call that passes fewer pointers than the format
  has conversions is undefined in C; the list update then stores nothing.)
  \<^verbatim>\<open>int\<close> and \<^verbatim>\<open>unsigned\<close> are 32 bits wide, \<^verbatim>\<open>long long\<close> and
  \<^verbatim>\<open>unsigned long long\<close> 64 bits; arithmetic on them wraps around.

  Floating-point arithmetic is not modelled. What the model keeps of a \<^verbatim>\<open>double\<close>
  that a reader stores is the numeral it was read from: the sign, the digits of the
  integer part, the digits of the fraction and, where an \<^verbatim>\<open>e\<close> or \<^verbatim>\<open>E\<close> was
  read, the sign and the digits of the exponent. The number that the code computes from
  these in \<^verbatim>\<open>double\<close> arithmetic is left out; the bytes consumed and the value
  returned are as in the code.
\<close>

datatype ydouble = YDouble int "int list" "int list" "(int \<times> int list) option"

datatype yval =
    VInt "32 word"
  | VUInt "32 word"
  | VLL "64 word"
  | VULL "64 word"
  | VDouble ydouble
  | VStr string
  | VChar char

text \<open>
  Every digit loop of the readers has the shape
  \<^verbatim>\<open>while((c=ypeek())>='0'&&c<='9'){ acc = step(acc, yget()-'0'); }\<close>;
  \<open>step\<close> is the loop body on the accumulator.
\<close>

function ydigit_loop :: "('a \<Rightarrow> int \<Rightarrow> 'a) \<Rightarrow> 'a \<Rightarrow> ystate \<Rightarrow> 'a \<times> ystate" where
  "ydigit_loop step acc s =
     (let (c, s1) = ypeek s in
      if c \<ge> 48 \<and> c \<le> 57 then
        (let (d, s2) = yget s1 in ydigit_loop step (step acc (d - 48)) s2)
      else (acc, s1))"
  by pat_completeness auto
termination
proof (relation "measure (\<lambda>(step, acc, s). ybytes s)", goal_cases)
  case 1
  show ?case by simp
next
  case (2 step acc s x c s1 y d s2)
  then have "c \<noteq> EOF" by (auto simp: EOF_def)
  with 2 have "ybytes (snd (yget s1)) < ybytes s"
    by (auto intro: ypeek_yget_ybytes [OF sym])
  with 2 show ?case by (metis in_measure case_prod_conv snd_conv)
qed

declare ydigit_loop.simps [simp del]

text \<open>\<^verbatim>\<open>x=x*10+(yget()-'0')\<close> on a 64-bit accumulator, signed or unsigned.\<close>

definition step64 :: "64 word \<Rightarrow> int \<Rightarrow> 64 word" where
  "step64 x d = x * 10 + of_int d"

text \<open>The optional sign: \<^verbatim>\<open>if(c=='+'||c=='-'){sign=(c=='-')?-1:1;yget();}\<close>.\<close>

definition ysign :: "int \<Rightarrow> ystate \<Rightarrow> int \<times> ystate" where
  "ysign c s =
     (if c = 43 \<or> c = 45 then ((if c = 45 then - 1 else 1), snd (yget s))
      else (1, s))"

definition yread_int_ok :: "nat \<Rightarrow> yval list \<Rightarrow> ystate \<Rightarrow> int \<times> yval list \<times> ystate" where
  "yread_int_ok out mem s =
     (let s1 = yskip_space s;
          (c, s2) = ypeek s1
      in if c = EOF then (0, mem, s2)
         else
           (let (sign, s3) = ysign c s2;
                (c', s4) = ypeek s3
            in if c' < 48 \<or> c' > 57 then (0, mem, s4)
               else
                 (let (x, s5) = ydigit_loop step64 0 s4
                  in (1, mem[out := VInt (ucast (x * of_int sign))], s5))))"

definition yread_uint_ok :: "nat \<Rightarrow> yval list \<Rightarrow> ystate \<Rightarrow> int \<times> yval list \<times> ystate" where
  "yread_uint_ok out mem s =
     (let s1 = yskip_space s;
          (c, s2) = ypeek s1
      in if c = EOF \<or> c < 48 \<or> c > 57 then (0, mem, s2)
         else
           (let (x, s3) = ydigit_loop step64 0 s2
            in (1, mem[out := VUInt (ucast x)], s3)))"

definition yread_ll_ok :: "nat \<Rightarrow> yval list \<Rightarrow> ystate \<Rightarrow> int \<times> yval list \<times> ystate" where
  "yread_ll_ok out mem s =
     (let s1 = yskip_space s;
          (c, s2) = ypeek s1
      in if c = EOF then (0, mem, s2)
         else
           (let (sign, s3) = ysign c s2;
                (c', s4) = ypeek s3
            in if c' < 48 \<or> c' > 57 then (0, mem, s4)
               else
                 (let (x, s5) = ydigit_loop step64 0 s4
                  in (1, mem[out := VLL (x * of_int sign)], s5))))"

definition yread_ull_ok :: "nat \<Rightarrow> yval list \<Rightarrow> ystate \<Rightarrow> int \<times> yval list \<times> ystate" where
  "yread_ull_ok out mem s =
     (let s1 = yskip_space s;
          (c, s2) = ypeek s1
      in if c = EOF \<or> c < 48 \<or> c > 57 then (0, mem, s2)
         else
           (let (x, s3) = ydigit_loop step64 0 s2
            in (1, mem[out := VULL x], s3)))"

text \<open>
  The digit loops of the floating-point readers (integer part, fraction, exponent) keep
  the digits they read, in place of the sums \<^verbatim>\<open>x=x*10+(yget()-'0')\<close>,
  \<^verbatim>\<open>frac=frac*10+(yget()-'0'); base*=10;\<close> and \<^verbatim>\<open>ep=ep*10+(yget()-'0')\<close>.
\<close>

definition stepdigits :: "int list \<Rightarrow> int \<Rightarrow> int list" where
  "stepdigits ds d = ds @ [d]"

definition yread_double_ok :: "nat \<Rightarrow> yval list \<Rightarrow> ystate \<Rightarrow> int \<times> yval list \<times> ystate" where
  "yread_double_ok out mem s =
     (let s1 = yskip_space s;
          (c, s2) = ypeek s1
      in if c = EOF then (0, mem, s2)
         else
           (let (sign, s3) = ysign c s2;
                (c', s4) = ypeek s3
            in if (c' < 48 \<or> c' > 57) \<and> c' \<noteq> 46 then (0, mem, s4)
               else
                 (let (x, s5) = ydigit_loop stepdigits [] s4;
                      (c5, s6) = ypeek s5;
                      (frac, s7) =
                        (if c5 = 46 then ydigit_loop stepdigits [] (snd (yget s6))
                         else ([], s6));
                      (c7, s8) = ypeek s7
                  in if c7 = 101 \<or> c7 = 69 then
                       (let s9 = snd (yget s8);
                            (c9, s10) = ypeek s9;
                            (es, s11) = ysign c9 s10;
                            (ep, s12) = ydigit_loop stepdigits [] s11
                        in (1, mem[out := VDouble (YDouble sign x frac (Some (es, ep)))], s12))
                     else (1, mem[out := VDouble (YDouble sign x frac None)], s8))))"

text \<open>\<^verbatim>\<open>while((c=ypeek())!=EOF&&!isspace(c)){*s++=yget();}\<close>\<close>

function ystr_loop :: "string \<Rightarrow> ystate \<Rightarrow> string \<times> ystate" where
  "ystr_loop acc s =
     (let (c, s1) = ypeek s in
      if c \<noteq> EOF \<and> \<not> isspace c then
        (let (d, s2) = yget s1 in ystr_loop (acc @ [char_of d]) s2)
      else (acc, s1))"
  by pat_completeness auto
termination
proof (relation "measure (\<lambda>(acc, s). ybytes s)", goal_cases)
  case 1
  show ?case by simp
next
  case (2 acc s x c s1 y d s2)
  then have "ybytes (snd (yget s1)) < ybytes s"
    by (auto intro: ypeek_yget_ybytes [OF sym])
  with 2 show ?case by (metis in_measure case_prod_conv snd_conv)
qed

declare ystr_loop.simps [simp del]

definition yread_str_ok :: "nat \<Rightarrow> yval list \<Rightarrow> ystate \<Rightarrow> int \<times> yval list \<times> ystate" where
  "yread_str_ok out mem s =
     (let s1 = yskip_space s;
          (c, s2) = ypeek s1
      in if c = EOF then (0, mem, s2)
         else
           (let (tok, s3) = ystr_loop [] s2
            in (1, mem[out := VStr tok], s3)))"

text \<open>
  The inner loop of both line readers,
  \<^verbatim>\<open>while(c!=EOF&&c!='\n'&&c!='\r'){ if(len<maxlen-1) s[len++]=(char)c; c=yget(); }\<close>.
  \<open>acc\<close> is \<^verbatim>\<open>s[0..len-1]\<close>, so \<^verbatim>\<open>len\<close> is its length.
\<close>

function yline_loop :: "int \<Rightarrow> int \<Rightarrow> string \<Rightarrow> ystate \<Rightarrow> int \<times> string \<times> ystate" where
  "yline_loop maxlen c acc s =
     (if c \<noteq> EOF \<and> c \<noteq> 10 \<and> c \<noteq> 13 then
        (let acc1 = (if int (length acc) < maxlen - 1 then acc @ [char_of c] else acc);
             (c1, s1) = yget s
         in yline_loop maxlen c1 acc1 s1)
      else (c, acc, s))"
  by pat_completeness auto
termination
proof (relation "measure (\<lambda>(maxlen, c, acc, s). if c = EOF then 0 else Suc (ybytes s))",
    goal_cases)
  case 1
  show ?case by simp
next
  case (2 maxlen c acc s acc1 x c1 s1)
  then have g: "yget s = (c1, s1)" by simp
  show ?case
  proof (cases "c1 = EOF")
    case True
    with 2 show ?thesis by simp
  next
    case False
    with g have "ybytes s1 < ybytes s" by (rule yget_ybytes_less)
    with 2 False show ?thesis by simp
  qed
qed

declare yline_loop.simps [simp del]

text \<open>The tail shared by the two line readers, after the first byte \<open>c\<close> of the line.\<close>

definition yline_rest :: "nat \<Rightarrow> int \<Rightarrow> int \<Rightarrow> yval list \<Rightarrow> ystate \<Rightarrow> int \<times> yval list \<times> ystate" where
  "yline_rest out maxlen c mem s =
     (let (c1, acc, s1) = yline_loop maxlen c [] s;
          s2 = (if c1 = 13 then
                  (let (c2, s') = ypeek s1 in if c2 = 10 then snd (yget s') else s')
                else s1)
      in (1, mem[out := VStr acc], s2))"

function yread_line_ok :: "nat \<Rightarrow> int \<Rightarrow> yval list \<Rightarrow> ystate \<Rightarrow> int \<times> yval list \<times> ystate" where
  "yread_line_ok out maxlen mem s =
     (let (c, s1) = yget s in
      if c = EOF then (0, mem, s1)
      else if c = 10 \<or> c = 13 then yread_line_ok out maxlen mem s1
      else yline_rest out maxlen c mem s1)"
  by pat_completeness auto
termination
proof (relation "measure (\<lambda>(out, maxlen, mem, s). ybytes s)", goal_cases)
  case 1
  show ?case by simp
next
  case (2 out maxlen mem s x c s1)
  then have "yget s = (c, s1)" and "c \<noteq> EOF" by simp_all
  then have "ybytes s1 < ybytes s" by (rule yget_ybytes_less)
  then show ?case by simp
qed

declare yread_line_ok.simps [simp del]

definition ygetline_ok :: "nat \<Rightarrow> int \<Rightarrow> yval list \<Rightarrow> ystate \<Rightarrow> int \<times> yval list \<times> ystate" where
  "ygetline_ok out maxlen mem s =
     (let (c, s1) = yget s in
      if c = EOF then (0, mem, s1)
      else yline_rest out maxlen c mem s1)"

section \<open>Version 3.0: \<^verbatim>\<open>yscanf\<close>\<close>

text \<open>\<^verbatim>\<open>return cnt?cnt:EOF;\<close>\<close>

definition yfail :: "int \<Rightarrow> int" where
  "yfail cnt = (if cnt \<noteq> 0 then cnt else EOF)"

text \<open>
  The loop \<^verbatim>\<open>while(*fmt){...}\<close> of \<^verbatim>\<open>yscanf\<close>. The format is the list of the
  characters before the terminating NUL, so the end of the list is read as NUL; \<open>cnt\<close>
  is the count so far, \<open>ap\<close> the index of the next pointer argument
  (\<^verbatim>\<open>va_arg\<close> advances it). The result is the returned \<^verbatim>\<open>int\<close>, the output slots
  and the input state.
\<close>

fun yscanf_loop :: "string \<Rightarrow> int \<Rightarrow> nat \<Rightarrow> yval list \<Rightarrow> ystate \<Rightarrow> int \<times> yval list \<times> ystate" where
  "yscanf_loop [] cnt ap mem s = (cnt, mem, s)"
| "yscanf_loop (f # fmt) cnt ap mem s =
     (if f = CHR 0x00 then (cnt, mem, s)
      else if isspace (int (of_char f)) then yscanf_loop fmt cnt ap mem (yskip_space s)
      else if f \<noteq> CHR ''%'' then yscanf_loop fmt cnt ap mem s
      else
        (case fmt of
           [] \<Rightarrow> (- 1, mem, s)
         | t # fmt1 \<Rightarrow>
             if t = CHR ''d'' then
               (let (ok, mem1, s1) = yread_int_ok ap mem s in
                if ok = 0 then (yfail cnt, mem1, s1)
                else yscanf_loop fmt1 (cnt + 1) (ap + 1) mem1 s1)
             else if t = CHR ''u'' then
               (let (ok, mem1, s1) = yread_uint_ok ap mem s in
                if ok = 0 then (yfail cnt, mem1, s1)
                else yscanf_loop fmt1 (cnt + 1) (ap + 1) mem1 s1)
             else if t = CHR ''l'' then
               (case fmt1 of
                  [] \<Rightarrow> (- 1, mem, s)
                | t2 # fmt2 \<Rightarrow>
                    if t2 = CHR ''l'' then
                      (case fmt2 of
                         [] \<Rightarrow> (- 1, mem, s)
                       | t3 # fmt3 \<Rightarrow>
                           if t3 = CHR ''d'' then
                             (let (ok, mem1, s1) = yread_ll_ok ap mem s in
                              if ok = 0 then (yfail cnt, mem1, s1)
                              else yscanf_loop fmt3 (cnt + 1) (ap + 1) mem1 s1)
                           else if t3 = CHR ''u'' then
                             (let (ok, mem1, s1) = yread_ull_ok ap mem s in
                              if ok = 0 then (yfail cnt, mem1, s1)
                              else yscanf_loop fmt3 (cnt + 1) (ap + 1) mem1 s1)
                           else (- 1, mem, s))
                    else (- 1, mem, s))
             else if t = CHR ''f'' \<or> t = CHR ''e'' \<or> t = CHR ''g'' then
               (let (ok, mem1, s1) = yread_double_ok ap mem s in
                if ok = 0 then (yfail cnt, mem1, s1)
                else yscanf_loop fmt1 (cnt + 1) (ap + 1) mem1 s1)
             else if t = CHR ''s'' then
               (let (ok, mem1, s1) = yread_str_ok ap mem s in
                if ok = 0 then (yfail cnt, mem1, s1)
                else yscanf_loop fmt1 (cnt + 1) (ap + 1) mem1 s1)
             else if t = CHR ''c'' then
               (let (c, s1) = yget s in
                if c = EOF then (yfail cnt, mem, s1)
                else yscanf_loop fmt1 (cnt + 1) (ap + 1) (mem[ap := VChar (char_of c)]) s1)
             else (- 1, mem, s)))"

definition yscanf :: "string \<Rightarrow> yval list \<Rightarrow> ystate \<Rightarrow> int \<times> yval list \<times> ystate" where
  "yscanf fmt mem s = yscanf_loop fmt 0 0 mem s"

section \<open>Version 2.0 (\<^verbatim>\<open>yscanf2.h\<close>): buffer and core input\<close>

text \<open>
  The globals of version 2.0, which has no \<^verbatim>\<open>yeof\<close>: \<^verbatim>\<open>ybuf\<close>, \<^verbatim>\<open>yptr\<close>,
  \<^verbatim>\<open>yend\<close> and \<^verbatim>\<open>stdin\<close>.
\<close>

record ystate2 =
  ybuf2 :: string
  yptr2 :: nat
  yend2 :: nat
  stdin2 :: cfile

definition yrefill :: "ystate2 \<Rightarrow> ystate2" where
  "yrefill s =
     (let (data, f) = fread (stdin2 s); len = length data
      in s\<lparr>ybuf2 := data @ drop len (ybuf2 s), yptr2 := 0, yend2 := len, stdin2 := f\<rparr>)"

definition ynext_char :: "ystate2 \<Rightarrow> int \<times> ystate2" where
  "ynext_char s =
     (if yptr2 s \<ge> yend2 s then
        (let s1 = yrefill s in
         if yptr2 s1 \<ge> yend2 s1 then (EOF, s1)
         else (int (of_char (ybuf2 s1 ! yptr2 s1)), s1\<lparr>yptr2 := yptr2 s1 + 1\<rparr>))
      else (int (of_char (ybuf2 s ! yptr2 s)), s\<lparr>yptr2 := yptr2 s + 1\<rparr>))"

definition ypeek_char :: "ystate2 \<Rightarrow> int \<times> ystate2" where
  "ypeek_char s =
     (if yptr2 s \<ge> yend2 s then
        (let s1 = yrefill s in
         if yptr2 s1 \<ge> yend2 s1 then (EOF, s1)
         else (int (of_char (ybuf2 s1 ! yptr2 s1)), s1))
      else (int (of_char (ybuf2 s ! yptr2 s)), s))"

definition ystart2 :: "string list \<Rightarrow> ystate2" where
  "ystart2 cs = \<lparr>ybuf2 = [], yptr2 = 0, yend2 = 0,
                 stdin2 = \<lparr>chunks = cs, freads = 0\<rparr>\<rparr>"

definition ybytes2 :: "ystate2 \<Rightarrow> nat" where
  "ybytes2 s = (yend2 s - yptr2 s) + length (concat (chunks (stdin2 s)))"

lemma ypeek_char_ybytes2: "ybytes2 (snd (ypeek_char s)) = ybytes2 s"
  by (auto simp: ypeek_char_def yrefill_def ybytes2_def fread_def Let_def split: list.splits)

lemma ypeek_char_window:
  "ypeek_char s = (c, s1) \<Longrightarrow> c \<noteq> EOF \<Longrightarrow> yptr2 s1 < yend2 s1"
  by (auto simp: ypeek_char_def yrefill_def fread_def Let_def split: list.splits if_splits)

lemma ynext_char_ybytes2_less:
  "ynext_char s = (c, s1) \<Longrightarrow> c \<noteq> EOF \<Longrightarrow> ybytes2 s1 < ybytes2 s"
  by (auto simp: ynext_char_def yrefill_def ybytes2_def fread_def Let_def
      split: list.splits if_splits)

lemma ynext_char_digit_less:
  "ynext_char s = (c, s1) \<Longrightarrow> 48 \<le> c \<Longrightarrow> ybytes2 s1 < ybytes2 s"
  by (rule ynext_char_ybytes2_less) (auto simp: EOF_def)

lemma ypeek_ynext_ybytes2:
  assumes "ypeek_char s = (c, s1)" and "c \<noteq> EOF"
  shows "ybytes2 (snd (ynext_char s1)) < ybytes2 s"
proof -
  obtain d s2 where g: "ynext_char s1 = (d, s2)" by (cases "ynext_char s1")
  from assms have "yptr2 s1 < yend2 s1" by (rule ypeek_char_window)
  then have "d \<noteq> EOF" using g by (auto simp: ynext_char_def of_char_not_EOF)
  with g have "ybytes2 s2 < ybytes2 s1" by (rule ynext_char_ybytes2_less)
  moreover have "ybytes2 s1 = ybytes2 s" using ypeek_char_ybytes2 [of s] assms(1) by simp
  ultimately show ?thesis using g by simp
qed

function yskip_space_input :: "ystate2 \<Rightarrow> ystate2" where
  "yskip_space_input s =
     (let (c, s1) = ypeek_char s in
      if c \<noteq> EOF \<and> isspace c then yskip_space_input (snd (ynext_char s1)) else s1)"
  by pat_completeness auto
termination
  by (relation "measure ybytes2") (auto intro: ypeek_ynext_ybytes2 [OF sym])

declare yskip_space_input.simps [simp del]

section \<open>Version 2.0: number parsing\<close>

text \<open>
  \<^verbatim>\<open>int64_t\<close> and \<^verbatim>\<open>uint64_t\<close> are 64-bit words. The source detects overflow by
  the test \<^verbatim>\<open>next < x\<close> after the multiplication has wrapped around; the signed
  arithmetic is modelled as wrapping, as that test presumes. The signed comparison
  reads the words by \<open>sint\<close>, the unsigned one compares them as they are. The
  source's \<^verbatim>\<open>next\<close> and \<^verbatim>\<open>exp\<close> are written \<open>nxt\<close> and \<open>ex\<close>.
\<close>

text \<open>\<^verbatim>\<open>while ((c = ynext_char()) >= '0' && c <= '9');\<close>\<close>

function yeat_digits :: "ystate2 \<Rightarrow> ystate2" where
  "yeat_digits s =
     (let (c, s1) = ynext_char s in
      if c \<ge> 48 \<and> c \<le> 57 then yeat_digits s1 else s1)"
  by pat_completeness auto
termination
proof (relation "measure ybytes2", goal_cases)
  case 1
  show ?case by simp
next
  case (2 s x c s1)
  then have "ynext_char s = (c, s1)" and "c \<noteq> EOF" by (simp_all add: EOF_def)
  then have "ybytes2 s1 < ybytes2 s" by (rule ynext_char_ybytes2_less)
  then show ?case by simp
qed

declare yeat_digits.simps [simp del]

text \<open>
  The digit loop of \<^verbatim>\<open>yparse_int\<close>; \<open>c\<close> is the byte read last. It returns
  \<^verbatim>\<open>x\<close> and the value it leaves in \<^verbatim>\<open>*overflow\<close>.
\<close>

function yparse_int_loop :: "64 word \<Rightarrow> int \<Rightarrow> ystate2 \<Rightarrow> 64 word \<times> int \<times> ystate2" where
  "yparse_int_loop x c s =
     (if c \<ge> 48 \<and> c \<le> 57 then
        (let nxt = x * 10 + of_int (c - 48) in
         if sint nxt < sint x then (x, 1, yeat_digits s)
         else (let (c1, s1) = ynext_char s in yparse_int_loop nxt c1 s1))
      else (x, 0, s))"
  by pat_completeness auto
termination
  by (relation "measure (\<lambda>(x, c, s). if c \<ge> 48 \<and> c \<le> 57 then Suc (ybytes2 s) else 0)")
    (auto dest!: sym [of _ "ynext_char _"] intro: ynext_char_digit_less)

declare yparse_int_loop.simps [simp del]

text \<open>
  The optional sign of \<^verbatim>\<open>yparse_int\<close> and \<^verbatim>\<open>yread_double\<close>:
  \<^verbatim>\<open>if (c == '-') { sign = -1; c = ynext_char(); } else if (c == '+') { c = ynext_char(); }\<close>
\<close>

definition ysign2 :: "int \<Rightarrow> ystate2 \<Rightarrow> int \<times> int \<times> ystate2" where
  "ysign2 c s =
     (if c = 45 then (let (c1, s1) = ynext_char s in (- 1, c1, s1))
      else if c = 43 then (let (c1, s1) = ynext_char s in (1, c1, s1))
      else (1, c, s))"

text \<open>\<^verbatim>\<open>yparse_int\<close> returns the value, the flag \<^verbatim>\<open>*overflow\<close> and the input state.\<close>

definition yparse_int :: "ystate2 \<Rightarrow> 64 word \<times> int \<times> ystate2" where
  "yparse_int s =
     (let s1 = yskip_space_input s;
          (c, s2) = ynext_char s1;
          (sign, c1, s3) = ysign2 c s2
      in if c1 < 48 \<or> c1 > 57 then (0, 1, s3)
         else
           (let (x, overflow, s4) = yparse_int_loop 0 c1 s3
            in (of_int sign * x, overflow, s4)))"

function yparse_uint_loop :: "64 word \<Rightarrow> int \<Rightarrow> ystate2 \<Rightarrow> 64 word \<times> int \<times> ystate2" where
  "yparse_uint_loop x c s =
     (if c \<ge> 48 \<and> c \<le> 57 then
        (let nxt = x * 10 + of_int (c - 48) in
         if nxt < x then (x, 1, yeat_digits s)
         else (let (c1, s1) = ynext_char s in yparse_uint_loop nxt c1 s1))
      else (x, 0, s))"
  by pat_completeness auto
termination
  by (relation "measure (\<lambda>(x, c, s). if c \<ge> 48 \<and> c \<le> 57 then Suc (ybytes2 s) else 0)")
    (auto dest!: sym [of _ "ynext_char _"] intro: ynext_char_digit_less)

declare yparse_uint_loop.simps [simp del]

definition yparse_uint :: "ystate2 \<Rightarrow> 64 word \<times> int \<times> ystate2" where
  "yparse_uint s =
     (let s1 = yskip_space_input s;
          (c, s2) = ynext_char s1
      in if c < 48 \<or> c > 57 then (0, 1, s2)
         else yparse_uint_loop 0 c s2)"

definition INT32_MAX :: "32 word" where "INT32_MAX = 0x7FFFFFFF"
definition INT32_MIN :: "32 word" where "INT32_MIN = 0x80000000"
definition UINT32_MAX :: "32 word" where "UINT32_MAX = 0xFFFFFFFF"
definition LLONG_MAX :: "64 word" where "LLONG_MAX = 0x7FFFFFFFFFFFFFFF"
definition LLONG_MIN :: "64 word" where "LLONG_MIN = 0x8000000000000000"
definition ULLONG_MAX :: "64 word" where "ULLONG_MAX = 0xFFFFFFFFFFFFFFFF"

definition yread_int :: "ystate2 \<Rightarrow> 32 word \<times> ystate2" where
  "yread_int s =
     (let (val, overflow, s1) = yparse_int s in
      if overflow \<noteq> 0 \<or> sint val > 2147483647 \<or> sint val < - 2147483648 then
        ((if sint val > 0 then INT32_MAX else INT32_MIN), s1)
      else (ucast val, s1))"

definition yread_ll :: "ystate2 \<Rightarrow> 64 word \<times> ystate2" where
  "yread_ll s =
     (let (val, overflow, s1) = yparse_int s in
      if overflow \<noteq> 0 then ((if sint val > 0 then LLONG_MAX else LLONG_MIN), s1)
      else (val, s1))"

definition yread_uint :: "ystate2 \<Rightarrow> 32 word \<times> ystate2" where
  "yread_uint s =
     (let (val, overflow, s1) = yparse_uint s in
      if overflow \<noteq> 0 \<or> val > 0xFFFFFFFF then (UINT32_MAX, s1)
      else (ucast val, s1))"

definition yread_ull :: "ystate2 \<Rightarrow> 64 word \<times> ystate2" where
  "yread_ull s =
     (let (val, overflow, s1) = yparse_uint s in
      if overflow \<noteq> 0 then (ULLONG_MAX, s1)
      else (val, s1))"

text \<open>
  The digit loops of \<^verbatim>\<open>yread_double\<close> and \<^verbatim>\<open>yread_double_exp\<close>,
  \<^verbatim>\<open>while (c >= '0' && c <= '9') { acc = step(acc, c - '0'); c = ynext_char(); }\<close>.
\<close>

function ynum_loop :: "('a \<Rightarrow> int \<Rightarrow> 'a) \<Rightarrow> 'a \<Rightarrow> int \<Rightarrow> ystate2 \<Rightarrow> 'a \<times> int \<times> ystate2" where
  "ynum_loop step acc c s =
     (if c \<ge> 48 \<and> c \<le> 57 then
        (let (c1, s1) = ynext_char s in ynum_loop step (step acc (c - 48)) c1 s1)
      else (acc, c, s))"
  by pat_completeness auto
termination
  by (relation "measure (\<lambda>(step, acc, c, s). if c \<ge> 48 \<and> c \<le> 57 then Suc (ybytes2 s) else 0)")
    (auto dest!: sym [of _ "ynext_char _"] intro: ynext_char_digit_less)

declare ynum_loop.simps [simp del]

definition yread_double :: "ystate2 \<Rightarrow> ydouble \<times> ystate2" where
  "yread_double s =
     (let s1 = yskip_space_input s;
          (c, s2) = ynext_char s1;
          (sign, c1, s3) = ysign2 c s2;
          (x, c2, s4) = ynum_loop stepdigits [] c1 s3;
          (frac, c3, s5) =
             (if c2 = 46 then
                (let (c', s') = ynext_char s4 in ynum_loop stepdigits [] c' s')
              else ([], c2, s4))
      in (YDouble sign x frac None, s5))"

text \<open>
  \<^verbatim>\<open>yread_double_exp\<close>: the exponent is read when the byte after what
  \<^verbatim>\<open>yread_double\<close> consumed is \<^verbatim>\<open>e\<close> or \<^verbatim>\<open>E\<close>; the scaling by the power of
  ten is floating-point arithmetic and left out.
\<close>

definition yread_double_exp :: "ystate2 \<Rightarrow> ydouble \<times> ystate2" where
  "yread_double_exp s =
     (let (x, s1) = yread_double s;
          (c, s2) = ypeek_char s1
      in if c = 101 \<or> c = 69 then
           (let s3 = snd (ynext_char s2);
                (c1, s4) = ynext_char s3;
                (esign, c2, s5) = ysign2 c1 s4;
                (ex, c3, s6) = ynum_loop stepdigits [] c2 s5
            in (case x of YDouble sign a b e \<Rightarrow> YDouble sign a b (Some (esign, ex)), s6))
         else (x, s2))"

text \<open>\<^verbatim>\<open>while ((c = ynext_char()) != EOF && !isspace((unsigned char)c)) { *s++ = (char)c; }\<close>\<close>

function ystring_loop :: "string \<Rightarrow> ystate2 \<Rightarrow> string \<times> ystate2" where
  "ystring_loop acc s =
     (let (c, s1) = ynext_char s in
      if c \<noteq> EOF \<and> \<not> isspace c then ystring_loop (acc @ [char_of c]) s1
      else (acc, s1))"
  by pat_completeness auto
termination
proof (relation "measure (\<lambda>(acc, s). ybytes2 s)", goal_cases)
  case 1
  show ?case by simp
next
  case (2 acc s x c s1)
  then have "ynext_char s = (c, s1)" and "c \<noteq> EOF" by simp_all
  then have "ybytes2 s1 < ybytes2 s" by (rule ynext_char_ybytes2_less)
  then show ?case by simp
qed

declare ystring_loop.simps [simp del]

definition yread_string :: "ystate2 \<Rightarrow> string \<times> ystate2" where
  "yread_string s = ystring_loop [] (yskip_space_input s)"

section \<open>Version 2.0: \<^verbatim>\<open>yscanf\<close>\<close>

text \<open>\<^verbatim>\<open>if (skip_space) yskip_space_input();\<close>\<close>

definition yskip_if :: "bool \<Rightarrow> ystate2 \<Rightarrow> ystate2" where
  "yskip_if skip_space s = (if skip_space then yskip_space_input s else s)"

text \<open>
  The loop of version 2.0's \<^verbatim>\<open>yscanf\<close> (named \<open>yscanf2\<close> here, version 3.0 having
  a function of the same name), with the flag \<^verbatim>\<open>skip_space\<close> as a further argument.
\<close>

fun yscanf2_loop ::
  "string \<Rightarrow> int \<Rightarrow> bool \<Rightarrow> nat \<Rightarrow> yval list \<Rightarrow> ystate2 \<Rightarrow> int \<times> yval list \<times> ystate2" where
  "yscanf2_loop [] cnt skip_space ap mem s = (cnt, mem, s)"
| "yscanf2_loop (f # fmt) cnt skip_space ap mem s =
     (if f = CHR 0x00 then (cnt, mem, s)
      else if isspace (int (of_char f)) then yscanf2_loop fmt cnt True ap mem s
      else if f \<noteq> CHR ''%'' then yscanf2_loop fmt cnt False ap mem s
      else
        (case fmt of
           [] \<Rightarrow> (- 1, mem, s)
         | t # fmt1 \<Rightarrow>
             if t = CHR ''d'' then
               (let (v, s1) = yread_int (yskip_if skip_space s)
                in yscanf2_loop fmt1 (cnt + 1) False (ap + 1) (mem[ap := VInt v]) s1)
             else if t = CHR ''u'' then
               (let (v, s1) = yread_uint (yskip_if skip_space s)
                in yscanf2_loop fmt1 (cnt + 1) False (ap + 1) (mem[ap := VUInt v]) s1)
             else if t = CHR ''s'' then
               (let (v, s1) = yread_string (yskip_if skip_space s)
                in yscanf2_loop fmt1 (cnt + 1) False (ap + 1) (mem[ap := VStr v]) s1)
             else if t = CHR ''c'' then
               (let (c, s1) = ynext_char (yskip_if skip_space s) in
                if c = EOF then (yfail cnt, mem, s1)
                else yscanf2_loop fmt1 (cnt + 1) False (ap + 1) (mem[ap := VChar (char_of c)]) s1)
             else if t = CHR ''l'' then
               (case fmt1 of
                  [] \<Rightarrow> (- 1, mem, s)
                | t2 # fmt2 \<Rightarrow>
                    if t2 = CHR ''l'' then
                      (case fmt2 of
                         [] \<Rightarrow> (- 1, mem, s)
                       | t3 # fmt3 \<Rightarrow>
                           if t3 = CHR ''d'' then
                             (let (v, s1) = yread_ll (yskip_if skip_space s)
                              in yscanf2_loop fmt3 (cnt + 1) False (ap + 1) (mem[ap := VLL v]) s1)
                           else if t3 = CHR ''u'' then
                             (let (v, s1) = yread_ull (yskip_if skip_space s)
                              in yscanf2_loop fmt3 (cnt + 1) False (ap + 1) (mem[ap := VULL v]) s1)
                           else (- 1, mem, s))
                    else if t2 = CHR ''f'' then
                      (let (v, s1) = yread_double (yskip_if skip_space s)
                       in yscanf2_loop fmt2 (cnt + 1) False (ap + 1) (mem[ap := VDouble v]) s1)
                    else (- 1, mem, s))
             else if t = CHR ''g'' \<or> t = CHR ''e'' \<or> t = CHR ''f'' then
               (let (v, s1) = yread_double_exp (yskip_if skip_space s)
                in yscanf2_loop fmt1 (cnt + 1) False (ap + 1) (mem[ap := VDouble v]) s1)
             else (- 1, mem, s)))"

definition yscanf2 :: "string \<Rightarrow> yval list \<Rightarrow> ystate2 \<Rightarrow> int \<times> yval list \<times> ystate2" where
  "yscanf2 fmt mem s = yscanf2_loop fmt 0 False 0 mem s"

section \<open>The input still to come (version 3.0)\<close>

text \<open>
  \<open>ywf\<close> is the invariant \<^verbatim>\<open>yend <= ybuf + sizeof(ybuf)\<close> in the form the model
  needs: \<open>yend\<close> lies within the bytes \<open>ybuf\<close> holds. \<open>ypending\<close> is the input that
  \<^verbatim>\<open>yget\<close> will deliver from a state: the unread part of the buffer and, unless
  \<^verbatim>\<open>yeof\<close> is set, what \<^verbatim>\<open>fread\<close> delivers before it first reports zero bytes.
  \<open>ychar\<close> is the next byte of such an input as \<^verbatim>\<open>yget\<close> returns it.
\<close>

definition ywf :: "ystate \<Rightarrow> bool" where
  "ywf s \<longleftrightarrow> yend s \<le> length (ybuf s)"

definition ypending :: "ystate \<Rightarrow> string" where
  "ypending s =
     drop (yptr s) (take (yend s) (ybuf s)) @
     (if yeof s then [] else concat (takeWhile (\<lambda>c. c \<noteq> []) (chunks (stdin s))))"

definition ychar :: "string \<Rightarrow> int" where
  "ychar xs = (case xs of [] \<Rightarrow> EOF | x # _ \<Rightarrow> int (of_char x))"

definition yspace :: "char \<Rightarrow> bool" where
  "yspace x \<longleftrightarrow> isspace (int (of_char x))"

definition ydigit :: "char \<Rightarrow> bool" where
  "ydigit x \<longleftrightarrow> 48 \<le> int (of_char x) \<and> int (of_char x) \<le> 57"

lemma ypeek_buf: "yptr s < yend s \<Longrightarrow> ypeek s = (int (of_char (ybuf s ! yptr s)), s)"
  by (simp add: ypeek_def)

lemma yget_buf:
  "yptr s < yend s \<Longrightarrow> yget s = (int (of_char (ybuf s ! yptr s)), s\<lparr>yptr := yptr s + 1\<rparr>)"
  by (simp add: yget_def)

lemma ylatched_yget: "yend s \<le> yptr s \<Longrightarrow> yeof s \<Longrightarrow> yget s = (EOF, s)"
  by (simp add: yget_def)

lemma ylatched_ypeek: "yend s \<le> yptr s \<Longrightarrow> yeof s \<Longrightarrow> ypeek s = (EOF, s)"
  by (simp add: ypeek_def)

lemma yzero_read:
  assumes "yend s \<le> yptr s" and "\<not> yeof s" and "fst (fread (stdin s)) = []"
  shows "yget s = (EOF, s\<lparr>stdin := snd (fread (stdin s)), yeof := True\<rparr>)"
    and "ypeek s = (EOF, s\<lparr>stdin := snd (fread (stdin s)), yeof := True\<rparr>)"
  using assms by (simp_all add: yget_def ypeek_def Let_def split_beta)

text \<open>The state after a refill that delivered \<open>data\<close>, leaving the stream as \<open>f\<close>.\<close>

definition yfilled :: "ystate \<Rightarrow> string \<Rightarrow> cfile \<Rightarrow> ystate" where
  "yfilled s data f =
     s\<lparr>stdin := f, ybuf := data @ drop (length data) (ybuf s), yptr := 0, yend := length data\<rparr>"

lemma yrefill_read:
  assumes "yend s \<le> yptr s" and "\<not> yeof s" and "fread (stdin s) = (data, f)" and "data \<noteq> []"
  shows "ypeek s = (int (of_char (hd data)), yfilled s data f)"
    and "yget s = (int (of_char (hd data)), (yfilled s data f)\<lparr>yptr := 1\<rparr>)"
  using assms by (simp_all add: yget_def ypeek_def Let_def yfilled_def nth_append hd_conv_nth)

lemma fread_pending:
  assumes "fread f = (data, f')"
  shows "concat (takeWhile (\<lambda>c. c \<noteq> []) (chunks f)) =
         (if data = [] then [] else data @ concat (takeWhile (\<lambda>c. c \<noteq> []) (chunks f')))"
  using assms by (cases "chunks f") (auto simp: fread_def)

lemma ywindow_Cons:
  "p < e \<Longrightarrow> e \<le> length b \<Longrightarrow> drop p (take e b) = b ! p # drop (Suc p) (take e b)"
  by (simp add: Cons_nth_drop_Suc [symmetric])

lemma ywindow_empty: "e \<le> p \<Longrightarrow> drop p (take e b) = []"
  by simp

lemma ypending_buf:
  "ywf s \<Longrightarrow> yptr s < yend s \<Longrightarrow> ypending s = ybuf s ! yptr s # ypending (s\<lparr>yptr := yptr s + 1\<rparr>)"
  by (simp add: ypending_def ywf_def ywindow_Cons)

lemma ypending_latched: "yend s \<le> yptr s \<Longrightarrow> yeof s \<Longrightarrow> ypending s = []"
  by (simp add: ypending_def)

lemma ypending_zero:
  "yend s \<le> yptr s \<Longrightarrow> \<not> yeof s \<Longrightarrow> fst (fread (stdin s)) = [] \<Longrightarrow> ypending s = []"
  using fread_pending [of "stdin s" "fst (fread (stdin s))" "snd (fread (stdin s))",
      OF prod.collapse [symmetric]]
  by (simp add: ypending_def)

lemma ypending_filled:
  assumes "yend s \<le> yptr s" and "\<not> yeof s" and "fread (stdin s) = (data, f)" and "data \<noteq> []"
  shows "ypending s = ypending (yfilled s data f)"
    and "ypending s = hd data # ypending ((yfilled s data f)\<lparr>yptr := 1\<rparr>)"
    and "ywf (yfilled s data f)"
proof -
  from assms fread_pending [OF assms(3)]
  have "ypending s = data @ concat (takeWhile (\<lambda>c. c \<noteq> []) (chunks f))"
    by (simp add: ypending_def)
  moreover have "ypending (yfilled s data f) = data @ concat (takeWhile (\<lambda>c. c \<noteq> []) (chunks f))"
    using assms(2) by (simp add: ypending_def yfilled_def)
  moreover have "ypending ((yfilled s data f)\<lparr>yptr := 1\<rparr>)
    = tl data @ concat (takeWhile (\<lambda>c. c \<noteq> []) (chunks f))"
    using assms(2) by (simp add: ypending_def yfilled_def drop_Suc)
  ultimately show "ypending s = ypending (yfilled s data f)"
    and "ypending s = hd data # ypending ((yfilled s data f)\<lparr>yptr := 1\<rparr>)"
    using assms(4) by (cases data; simp)+
  show "ywf (yfilled s data f)" by (simp add: ywf_def yfilled_def)
qed

text \<open>What one call of \<^verbatim>\<open>ypeek\<close> and of \<^verbatim>\<open>yget\<close> does, in terms of the pending input.\<close>

lemma ypeek_spec:
  assumes "ywf s"
  shows "fst (ypeek s) = ychar (ypending s) \<and> ypending (snd (ypeek s)) = ypending s \<and>
         ywf (snd (ypeek s))"
proof (cases "yptr s < yend s")
  case True
  with assms show ?thesis by (simp add: ypeek_buf ypending_buf ychar_def)
next
  case False
  then have e: "yend s \<le> yptr s" by simp
  show ?thesis
  proof (cases "yeof s")
    case True
    with e assms show ?thesis by (simp add: ylatched_ypeek ypending_latched ychar_def)
  next
    case False
    obtain data f where r: "fread (stdin s) = (data, f)" by (cases "fread (stdin s)")
    show ?thesis
    proof (cases "data = []")
      case True
      with e False r have "ypeek s = (EOF, s\<lparr>stdin := f, yeof := True\<rparr>)"
        and "ypending s = []"
        using yzero_read(2) [of s] ypending_zero [of s] by simp_all
      moreover have "ypending (s\<lparr>stdin := f, yeof := True\<rparr>) = []"
        using e by (simp add: ypending_def)
      moreover have "ywf (s\<lparr>stdin := f, yeof := True\<rparr>)" using assms by (simp add: ywf_def)
      ultimately show ?thesis by (simp add: ychar_def)
    next
      case ne: False
      have p: "ypeek s = (int (of_char (hd data)), yfilled s data f)"
        by (rule yrefill_read(1) [OF e False r ne])
      have c: "ychar (ypending s) = int (of_char (hd data))"
        by (subst ypending_filled(2) [OF e False r ne]) (simp add: ychar_def)
      have q: "ypending (yfilled s data f) = ypending s"
        by (rule ypending_filled(1) [OF e False r ne, symmetric])
      have w: "ywf (yfilled s data f)" by (rule ypending_filled(3) [OF e False r ne])
      show ?thesis unfolding p by (simp add: c q w)
    qed
  qed
qed

lemma yget_spec:
  assumes "ywf s"
  shows "fst (yget s) = ychar (ypending s) \<and> ypending (snd (yget s)) = tl (ypending s) \<and>
         ywf (snd (yget s))"
proof (cases "yptr s < yend s")
  case True
  moreover from assms have "ywf (s\<lparr>yptr := yptr s + 1\<rparr>)" by (simp add: ywf_def)
  ultimately show ?thesis using assms by (simp add: yget_buf ypending_buf ychar_def)
next
  case False
  then have e: "yend s \<le> yptr s" by simp
  show ?thesis
  proof (cases "yeof s")
    case True
    with e assms show ?thesis by (simp add: ylatched_yget ypending_latched ychar_def)
  next
    case False
    obtain data f where r: "fread (stdin s) = (data, f)" by (cases "fread (stdin s)")
    show ?thesis
    proof (cases "data = []")
      case True
      with e False r have "yget s = (EOF, s\<lparr>stdin := f, yeof := True\<rparr>)"
        and "ypending s = []"
        using yzero_read(1) [of s] ypending_zero [of s] by simp_all
      moreover have "ypending (s\<lparr>stdin := f, yeof := True\<rparr>) = []"
        using e by (simp add: ypending_def)
      moreover have "ywf (s\<lparr>stdin := f, yeof := True\<rparr>)" using assms by (simp add: ywf_def)
      ultimately show ?thesis by (simp add: ychar_def)
    next
      case ne: False
      have p: "yget s = (int (of_char (hd data)), (yfilled s data f)\<lparr>yptr := 1\<rparr>)"
        by (rule yrefill_read(2) [OF e False r ne])
      have c: "ychar (ypending s) = int (of_char (hd data))"
        by (subst ypending_filled(2) [OF e False r ne]) (simp add: ychar_def)
      have q: "tl (ypending s) = ypending ((yfilled s data f)\<lparr>yptr := 1\<rparr>)"
        by (subst ypending_filled(2) [OF e False r ne]) simp
      have w: "ywf ((yfilled s data f)\<lparr>yptr := 1\<rparr>)" by (simp add: ywf_def yfilled_def)
      show ?thesis unfolding p using w by (simp add: c q)
    qed
  qed
qed

lemma ywf_ypeek: "ywf s \<Longrightarrow> ywf (snd (ypeek s))"
  by (simp add: ypeek_spec)

lemma ywf_yget: "ywf s \<Longrightarrow> ywf (snd (yget s))"
  by (simp add: yget_spec)

lemma ypending_ypeek: "ywf s \<Longrightarrow> ypending (snd (ypeek s)) = ypending s"
  by (simp add: ypeek_spec)

lemma fst_ypeek: "ywf s \<Longrightarrow> fst (ypeek s) = ychar (ypending s)"
  by (simp add: ypeek_spec)

lemma ypending_yget: "ywf s \<Longrightarrow> ypending (snd (yget s)) = tl (ypending s)"
  by (simp add: yget_spec)

lemma fst_yget: "ywf s \<Longrightarrow> fst (yget s) = ychar (ypending s)"
  by (simp add: yget_spec)

lemma ychar_EOF: "ychar xs = EOF \<longleftrightarrow> xs = []"
  by (auto simp: ychar_def of_char_not_EOF split: list.splits)

lemma yskip_space_spec:
  "ywf s \<Longrightarrow> ywf (yskip_space s) \<and> ypending (yskip_space s) = dropWhile yspace (ypending s)"
proof (induction s rule: yskip_space.induct)
  case (1 s)
  obtain c s1 where p: "ypeek s = (c, s1)" by (cases "ypeek s")
  have wf1: "ywf s1" using ywf_ypeek [OF "1.prems"] p by simp
  have pe1: "ypending s1 = ypending s" using ypending_ypeek [OF "1.prems"] p by simp
  have c: "c = ychar (ypending s)" using fst_ypeek [OF "1.prems"] p by simp
  show ?case
  proof (cases "c \<noteq> EOF \<and> isspace c")
    case True
    then obtain x xs where xs: "ypending s = x # xs" and sp: "yspace x"
      using c by (auto simp: ychar_def yspace_def split: list.splits)
    let ?s2 = "snd (yget s1)"
    have wf2: "ywf ?s2" using wf1 by (rule ywf_yget)
    have pe2: "ypending ?s2 = xs" using ypending_yget [OF wf1] pe1 xs by simp
    have "ywf (yskip_space ?s2) \<and> ypending (yskip_space ?s2) = dropWhile yspace (ypending ?s2)"
      using "1.IH" [OF refl p [symmetric] True wf2] .
    moreover have "yskip_space s = yskip_space ?s2"
      using p True by (subst yskip_space.simps) simp
    ultimately show ?thesis using xs sp pe2 by simp
  next
    case False
    then have e: "yskip_space s = s1"
      using p by (subst yskip_space.simps) auto
    have "dropWhile yspace (ypending s) = ypending s"
      using False c by (cases "ypending s") (auto simp: ychar_def yspace_def of_char_not_EOF)
    then show ?thesis using e wf1 pe1 by simp
  qed
qed

lemma ydigit_loop_spec:
  assumes "ywf s" and "ydigit_loop step acc s = (r, s')"
  shows "ywf s' \<and> ypending s' = dropWhile ydigit (ypending s) \<and>
         r = foldl (\<lambda>a x. step a (int (of_char x) - 48)) acc (takeWhile ydigit (ypending s))"
  using assms
proof (induction step acc s rule: ydigit_loop.induct)
  case (1 step acc s)
  obtain c s1 where p: "ypeek s = (c, s1)" by (cases "ypeek s")
  have wf1: "ywf s1" using ywf_ypeek [OF "1.prems"(1)] p by simp
  have pe1: "ypending s1 = ypending s" using ypending_ypeek [OF "1.prems"(1)] p by simp
  have c: "c = ychar (ypending s)" using fst_ypeek [OF "1.prems"(1)] p by simp
  show ?case
  proof (cases "c \<ge> 48 \<and> c \<le> 57")
    case True
    then obtain x xs where xs: "ypending s = x # xs" and dg: "ydigit x" and cx: "c = int (of_char x)"
      using c by (auto simp: ychar_def ydigit_def EOF_def split: list.splits)
    obtain d s2 where g: "yget s1 = (d, s2)" by (cases "yget s1")
    have wf2: "ywf s2" using ywf_yget [OF wf1] g by simp
    have pe2: "ypending s2 = xs" using ypending_yget [OF wf1] pe1 xs g by simp
    have d: "d = int (of_char x)" using fst_yget [OF wf1] g pe1 xs by (simp add: ychar_def)
    have "ydigit_loop step acc s = ydigit_loop step (step acc (d - 48)) s2"
      using p True g by (subst ydigit_loop.simps) simp
    then have "ydigit_loop step (step acc (d - 48)) s2 = (r, s')" using "1.prems"(2) by simp
    from "1.IH" [OF refl p [symmetric] True refl g [symmetric] wf2 this]
    show ?thesis using xs dg pe2 d by simp
  next
    case False
    then have e: "ydigit_loop step acc s = (acc, s1)"
      using p by (subst ydigit_loop.simps) auto
    have "\<not> ydigit (hd (ypending s)) \<or> ypending s = []"
      using False c by (cases "ypending s") (auto simp: ychar_def ydigit_def)
    then have "dropWhile ydigit (ypending s) = ypending s" "takeWhile ydigit (ypending s) = []"
      by (cases "ypending s"; auto)+
    then show ?thesis using e wf1 pe1 "1.prems"(2) by simp
  qed
qed

text \<open>A run of calls, \<open>True\<close> for \<^verbatim>\<open>yget()\<close> and \<open>False\<close> for \<^verbatim>\<open>ypeek()\<close>, with the values returned.\<close>

primrec ycalls :: "bool list \<Rightarrow> ystate \<Rightarrow> int list \<times> ystate" where
  "ycalls [] s = ([], s)"
| "ycalls (g # gs) s =
     (let r = (if g then yget s else ypeek s);
          rs = ycalls gs (snd r)
      in (fst r # fst rs, snd rs))"

section \<open>Results\<close>

lemma ylatched_ycalls:
  "yend s \<le> yptr s \<Longrightarrow> yeof s \<Longrightarrow> ycalls gs s = (replicate (length gs) EOF, s)"
  by (induction gs) (simp_all add: ylatched_yget ylatched_ypeek)

text \<open>
  Claim C4, as the code has it. In version 3.0 \<^verbatim>\<open>yeof\<close> is never cleared by \<^verbatim>\<open>yget\<close> or \<^verbatim>\<open>ypeek\<close>.
  When the buffer is used up and the \<^verbatim>\<open>fread\<close> of a call of \<^verbatim>\<open>yget\<close> or
  \<^verbatim>\<open>ypeek\<close> reports zero bytes, the call returns \<^verbatim>\<open>EOF\<close> and leaves \<^verbatim>\<open>yeof\<close>
  set; from the state \<open>t\<close> it leaves, every run \<open>gs\<close> of further calls returns
  \<^verbatim>\<open>EOF\<close> each time and ends in \<open>t\<close> again, so the count of \<^verbatim>\<open>fread\<close> calls
  stays what it was.
\<close>

theorem yeof_latched:
  "(yeof s \<longrightarrow> yeof (snd (yget s)) \<and> yeof (snd (ypeek s))) \<and>
   (yend s \<le> yptr s \<and> \<not> yeof s \<and> fst (fread (stdin s)) = [] \<and>
    (t = snd (yget s) \<or> t = snd (ypeek s)) \<longrightarrow>
      fst (yget s) = EOF \<and> fst (ypeek s) = EOF \<and> yeof t \<and>
      ycalls gs t = (replicate (length gs) EOF, t) \<and>
      freads (stdin (snd (ycalls gs t))) = freads (stdin t))"
proof (intro conjI impI)
  assume "yeof s"
  then show "yeof (snd (yget s))" by (simp add: yget_def)
  from \<open>yeof s\<close> show "yeof (snd (ypeek s))" by (simp add: ypeek_def)
next
  assume a: "yend s \<le> yptr s \<and> \<not> yeof s \<and> fst (fread (stdin s)) = [] \<and>
    (t = snd (yget s) \<or> t = snd (ypeek s))"
  then have g: "yget s = (EOF, s\<lparr>stdin := snd (fread (stdin s)), yeof := True\<rparr>)"
    and p: "ypeek s = (EOF, s\<lparr>stdin := snd (fread (stdin s)), yeof := True\<rparr>)"
    using yzero_read [of s] by blast+
  from g show "fst (yget s) = EOF" by simp
  from p show "fst (ypeek s) = EOF" by simp
  from a have "t = snd (yget s) \<or> t = snd (ypeek s)" by blast
  then have t: "t = s\<lparr>stdin := snd (fread (stdin s)), yeof := True\<rparr>"
    unfolding g p by simp
  then show "yeof t" by simp
  from t a have l: "yend t \<le> yptr t" "yeof t" by simp_all
  then show c: "ycalls gs t = (replicate (length gs) EOF, t)" by (rule ylatched_ycalls)
  then show "freads (stdin (snd (ycalls gs t))) = freads (stdin t)" by simp
qed

theorem yeof_latched_witness:
  "yeof (snd (yget (ystart [[], ''ab'']))) \<and>
   yeof (snd (yget (snd (yget (ystart [[], ''ab'']))))) \<and>
   fst (yget (ystart [[], ''ab''])) = EOF \<and>
   ycalls [True, False, True] (snd (yget (ystart [[], ''ab''])))
     = ([EOF, EOF, EOF], snd (yget (ystart [[], ''ab'']))) \<and>
   freads (stdin (snd (ycalls [True, False, True] (snd (yget (ystart [[], ''ab'']))))))
     = freads (stdin (snd (yget (ystart [[], ''ab'']))))"
proof -
  let ?s = "ystart [[], ''ab'']"
  let ?t = "snd (yget ?s)"
  have h: "yend ?s \<le> yptr ?s \<and> \<not> yeof ?s \<and> fst (fread (stdin ?s)) = [] \<and>
    (?t = snd (yget ?s) \<or> ?t = snd (ypeek ?s))"
    by (simp add: ystart_def fread_def)
  from yeof_latched [of ?s ?t "[True, False, True]"] h
  have 1: "fst (yget ?s) = EOF \<and> fst (ypeek ?s) = EOF \<and> yeof ?t \<and>
      ycalls [True, False, True] ?t = (replicate (length [True, False, True]) EOF, ?t) \<and>
      freads (stdin (snd (ycalls [True, False, True] ?t))) = freads (stdin ?t)"
    by blast
  then have "yeof ?t" by blast
  with yeof_latched [of ?t ?t "[]"] have 2: "yeof (snd (yget ?t))" by blast
  have 3: "replicate (length [True, False, True]) EOF = [EOF, EOF, EOF]"
    by (simp add: numeral_3_eq_3)
  from 1 2 show ?thesis unfolding 3 by blast
qed

text \<open>
  Claim C9. \<^verbatim>\<open>ypeek\<close> does not consume: in every state a second \<^verbatim>\<open>ypeek()\<close>
  returns what the first returned, and when that is a byte (not \<^verbatim>\<open>EOF\<close>) the
  \<^verbatim>\<open>yget()\<close> that follows returns the same byte.
\<close>

theorem ypeek_not_consuming:
  "fst (ypeek (snd (ypeek s))) = fst (ypeek s) \<and>
   (fst (ypeek s) \<noteq> EOF \<longrightarrow> fst (yget (snd (ypeek s))) = fst (ypeek s))"
proof (cases "yend s \<le> yptr s")
  case False
  then show ?thesis by (simp add: ypeek_buf yget_buf)
next
  case True
  note e = this
  show ?thesis
  proof (cases "yeof s")
    case True
    with e show ?thesis by (simp add: ylatched_ypeek)
  next
    case False
    obtain data f where r: "fread (stdin s) = (data, f)" by (cases "fread (stdin s)")
    show ?thesis
    proof (cases "data = []")
      case True
      with e False r
      have p: "ypeek s = (EOF, s\<lparr>stdin := f, yeof := True\<rparr>)"
        using yzero_read(2) [of s] by simp
      have "ypeek (s\<lparr>stdin := f, yeof := True\<rparr>) = (EOF, s\<lparr>stdin := f, yeof := True\<rparr>)"
        using e by (simp add: ylatched_ypeek)
      with p show ?thesis by simp
    next
      case ne: False
      let ?t = "yfilled s data f"
      have p: "ypeek s = (int (of_char (hd data)), ?t)"
        by (rule yrefill_read(1) [OF e False r ne])
      from ne have w: "yptr ?t < yend ?t" and b: "ybuf ?t ! yptr ?t = hd data"
        by (simp_all add: yfilled_def nth_append hd_conv_nth)
      from w b have "ypeek ?t = (int (of_char (hd data)), ?t)"
        and "fst (yget ?t) = int (of_char (hd data))"
        by (simp_all add: ypeek_buf yget_buf)
      with p show ?thesis by simp
    qed
  qed
qed

theorem ypeek_not_consuming_witness:
  "fst (ypeek (snd (ypeek (ystart [''ab'', ''c''])))) = 97 \<and>
   fst (ypeek (ystart [''ab'', ''c''])) = 97 \<and> (97 :: int) \<noteq> EOF \<and>
   fst (yget (snd (ypeek (ystart [''ab'', ''c''])))) = 97"
proof -
  have a: "fst (ypeek (ystart [''ab'', ''c''])) = 97" by code_simp
  have b: "(97 :: int) \<noteq> EOF" by code_simp
  from ypeek_not_consuming [of "ystart [''ab'', ''c'']"] a b show ?thesis by simp
qed

text \<open>
  The numeral grammar of the integer readers on a pending input: leading white space
  is dropped, \<open>ysigned\<close> takes the optional sign off, \<open>yvalue64\<close> is the value the
  digit loop accumulates (modulo \<open>2 ^ 64\<close>). \<open>yparse_signed\<close> and \<open>yparse_unsigned\<close>
  give the value and the input left, or \<open>None\<close> where the reader returns 0.
\<close>

definition ysigned :: "string \<Rightarrow> int \<times> string" where
  "ysigned inp =
     (case inp of
        [] \<Rightarrow> (1, [])
      | x # r \<Rightarrow>
          if x = CHR ''+'' then (1, r) else if x = CHR ''-'' then (- 1, r) else (1, inp))"

definition yvalue64 :: "string \<Rightarrow> 64 word" where
  "yvalue64 ds = foldl (\<lambda>a x. step64 a (int (of_char x) - 48)) 0 ds"

definition yparse_signed :: "string \<Rightarrow> (64 word \<times> string) option" where
  "yparse_signed inp0 =
     (let inp = dropWhile yspace inp0;
          (sign, body) = ysigned inp
      in if body \<noteq> [] \<and> ydigit (hd body)
         then Some (yvalue64 (takeWhile ydigit body) * of_int sign, dropWhile ydigit body)
         else None)"

definition yparse_unsigned :: "string \<Rightarrow> (64 word \<times> string) option" where
  "yparse_unsigned inp0 =
     (let inp = dropWhile yspace inp0
      in if inp \<noteq> [] \<and> ydigit (hd inp)
         then Some (yvalue64 (takeWhile ydigit inp), dropWhile ydigit inp)
         else None)"

lemma ychar_digit: "48 \<le> ychar xs \<and> ychar xs \<le> 57 \<longleftrightarrow> xs \<noteq> [] \<and> ydigit (hd xs)"
  by (cases xs) (auto simp: ychar_def ydigit_def EOF_def)

lemma ybyte_eq: "int (of_char x) = int (of_char y) \<longleftrightarrow> x = y"
  by simp

lemma ybyte_plus: "(of_char x :: nat) = 43 \<longleftrightarrow> x = CHR ''+''"
  using ybyte_eq [of x "CHR ''+''"] by simp

lemma ybyte_minus: "(of_char x :: nat) = 45 \<longleftrightarrow> x = CHR ''-''"
  using ybyte_eq [of x "CHR ''-''"] by simp

lemma ysign_spec:
  assumes "ywf s" and "ypending s \<noteq> []"
  shows "fst (ysign (ychar (ypending s)) s) = fst (ysigned (ypending s)) \<and>
         ypending (snd (ysign (ychar (ypending s)) s)) = snd (ysigned (ypending s)) \<and>
         ywf (snd (ysign (ychar (ypending s)) s))"
proof -
  from assms(2) obtain x r where xr: "ypending s = x # r" by (cases "ypending s") auto
  have c: "ychar (ypending s) = int (of_char x)" by (simp add: xr ychar_def)
  have g: "ypending (snd (yget s)) = r" "ywf (snd (yget s))"
    using ypending_yget [OF assms(1)] ywf_yget [OF assms(1)] xr by simp_all
  show ?thesis
    unfolding c using g assms(1) xr
    by (simp add: ysign_def ysigned_def ybyte_plus ybyte_minus)
qed

text \<open>What the four integer readers do, in terms of the pending input.\<close>

lemma yread_int_ok_spec:
  assumes "ywf s"
  shows "(case yparse_signed (ypending s) of
           Some (v, rest) \<Rightarrow>
             fst (yread_int_ok out mem s) = 1 \<and>
             fst (snd (yread_int_ok out mem s)) = mem[out := VInt (ucast v)] \<and>
             ypending (snd (snd (yread_int_ok out mem s))) = rest
         | None \<Rightarrow>
             fst (yread_int_ok out mem s) = 0 \<and>
             fst (snd (yread_int_ok out mem s)) = mem \<and>
             ypending (snd (snd (yread_int_ok out mem s)))
               = snd (ysigned (dropWhile yspace (ypending s)))) \<and>
         ywf (snd (snd (yread_int_ok out mem s)))"
proof -
  define s1 where "s1 = yskip_space s"
  define inp where "inp = dropWhile yspace (ypending s)"
  have s1: "ywf s1" "ypending s1 = inp"
    using yskip_space_spec [OF assms] by (simp_all add: s1_def inp_def)
  obtain c s2 where p: "ypeek s1 = (c, s2)" by (cases "ypeek s1")
  have s2: "ywf s2" "ypending s2 = inp" "c = ychar inp"
    using ypeek_spec [OF s1(1)] p s1(2) by simp_all
  show ?thesis
  proof (cases "inp = []")
    case True
    then have "c = EOF" using s2(3) by (simp add: ychar_def)
    then have "yread_int_ok out mem s = (0, mem, s2)"
      using p by (simp add: yread_int_ok_def s1_def [symmetric])
    moreover have "yparse_signed (ypending s) = None"
      using True by (simp add: yparse_signed_def inp_def [symmetric] ysigned_def)
    ultimately show ?thesis using s2 True by (simp add: inp_def [symmetric] ysigned_def)
  next
    case False
    then have ne: "c \<noteq> EOF" using s2(3) by (simp add: ychar_EOF)
    obtain sign s3 where sg: "ysign c s2 = (sign, s3)" by (cases "ysign c s2")
    have s3: "sign = fst (ysigned inp)" "ypending s3 = snd (ysigned inp)" "ywf s3"
      using ysign_spec [OF s2(1)] False s2(2,3) sg by simp_all
    define body where "body = snd (ysigned inp)"
    obtain c' s4 where p4: "ypeek s3 = (c', s4)" by (cases "ypeek s3")
    have s4: "ywf s4" "ypending s4 = body" "c' = ychar body"
      using ypeek_spec [OF s3(3)] p4 s3(2) by (simp_all add: body_def)
    have sb: "ysigned inp = (sign, body)" by (simp add: s3(1) body_def)
    show ?thesis
    proof (cases "body \<noteq> [] \<and> ydigit (hd body)")
      case True
      then have dg: "\<not> (c' < 48 \<or> c' > 57)" using ychar_digit [of body] s4(3) by auto
      obtain x s5 where l: "ydigit_loop step64 0 s4 = (x, s5)"
        by (cases "ydigit_loop step64 0 s4")
      have s5: "ywf s5" "ypending s5 = dropWhile ydigit body"
        "x = yvalue64 (takeWhile ydigit body)"
        using ydigit_loop_spec [OF s4(1) l] s4(2) by (simp_all add: yvalue64_def)
      have "yread_int_ok out mem s = (1, mem[out := VInt (ucast (x * of_int sign))], s5)"
        using p ne sg p4 dg l by (simp add: yread_int_ok_def s1_def [symmetric])
      moreover have "yparse_signed (ypending s)
        = Some (yvalue64 (takeWhile ydigit body) * of_int sign, dropWhile ydigit body)"
        using True sb by (simp add: yparse_signed_def inp_def [symmetric])
      ultimately show ?thesis using s5 by simp
    next
      case False
      then have dg: "c' < 48 \<or> c' > 57" using ychar_digit [of body] s4(3) by auto
      have "yread_int_ok out mem s = (0, mem, s4)"
        using p ne sg p4 dg by (simp add: yread_int_ok_def s1_def [symmetric])
      moreover have "yparse_signed (ypending s) = None"
        using False sb by (simp add: yparse_signed_def inp_def [symmetric])
      ultimately show ?thesis using s4 by (simp add: inp_def [symmetric] body_def)
    qed
  qed
qed

lemma yread_ll_ok_spec:
  assumes "ywf s"
  shows "(case yparse_signed (ypending s) of
           Some (v, rest) \<Rightarrow>
             fst (yread_ll_ok out mem s) = 1 \<and>
             fst (snd (yread_ll_ok out mem s)) = mem[out := VLL v] \<and>
             ypending (snd (snd (yread_ll_ok out mem s))) = rest
         | None \<Rightarrow>
             fst (yread_ll_ok out mem s) = 0 \<and>
             fst (snd (yread_ll_ok out mem s)) = mem \<and>
             ypending (snd (snd (yread_ll_ok out mem s)))
               = snd (ysigned (dropWhile yspace (ypending s)))) \<and>
         ywf (snd (snd (yread_ll_ok out mem s)))"
proof -
  define s1 where "s1 = yskip_space s"
  define inp where "inp = dropWhile yspace (ypending s)"
  have s1: "ywf s1" "ypending s1 = inp"
    using yskip_space_spec [OF assms] by (simp_all add: s1_def inp_def)
  obtain c s2 where p: "ypeek s1 = (c, s2)" by (cases "ypeek s1")
  have s2: "ywf s2" "ypending s2 = inp" "c = ychar inp"
    using ypeek_spec [OF s1(1)] p s1(2) by simp_all
  show ?thesis
  proof (cases "inp = []")
    case True
    then have "c = EOF" using s2(3) by (simp add: ychar_def)
    then have "yread_ll_ok out mem s = (0, mem, s2)"
      using p by (simp add: yread_ll_ok_def s1_def [symmetric])
    moreover have "yparse_signed (ypending s) = None"
      using True by (simp add: yparse_signed_def inp_def [symmetric] ysigned_def)
    ultimately show ?thesis using s2 True by (simp add: inp_def [symmetric] ysigned_def)
  next
    case False
    then have ne: "c \<noteq> EOF" using s2(3) by (simp add: ychar_EOF)
    obtain sign s3 where sg: "ysign c s2 = (sign, s3)" by (cases "ysign c s2")
    have s3: "sign = fst (ysigned inp)" "ypending s3 = snd (ysigned inp)" "ywf s3"
      using ysign_spec [OF s2(1)] False s2(2,3) sg by simp_all
    define body where "body = snd (ysigned inp)"
    obtain c' s4 where p4: "ypeek s3 = (c', s4)" by (cases "ypeek s3")
    have s4: "ywf s4" "ypending s4 = body" "c' = ychar body"
      using ypeek_spec [OF s3(3)] p4 s3(2) by (simp_all add: body_def)
    have sb: "ysigned inp = (sign, body)" by (simp add: s3(1) body_def)
    show ?thesis
    proof (cases "body \<noteq> [] \<and> ydigit (hd body)")
      case True
      then have dg: "\<not> (c' < 48 \<or> c' > 57)" using ychar_digit [of body] s4(3) by auto
      obtain x s5 where l: "ydigit_loop step64 0 s4 = (x, s5)"
        by (cases "ydigit_loop step64 0 s4")
      have s5: "ywf s5" "ypending s5 = dropWhile ydigit body"
        "x = yvalue64 (takeWhile ydigit body)"
        using ydigit_loop_spec [OF s4(1) l] s4(2) by (simp_all add: yvalue64_def)
      have "yread_ll_ok out mem s = (1, mem[out := VLL (x * of_int sign)], s5)"
        using p ne sg p4 dg l by (simp add: yread_ll_ok_def s1_def [symmetric])
      moreover have "yparse_signed (ypending s)
        = Some (yvalue64 (takeWhile ydigit body) * of_int sign, dropWhile ydigit body)"
        using True sb by (simp add: yparse_signed_def inp_def [symmetric])
      ultimately show ?thesis using s5 by simp
    next
      case False
      then have dg: "c' < 48 \<or> c' > 57" using ychar_digit [of body] s4(3) by auto
      have "yread_ll_ok out mem s = (0, mem, s4)"
        using p ne sg p4 dg by (simp add: yread_ll_ok_def s1_def [symmetric])
      moreover have "yparse_signed (ypending s) = None"
        using False sb by (simp add: yparse_signed_def inp_def [symmetric])
      ultimately show ?thesis using s4 by (simp add: inp_def [symmetric] body_def)
    qed
  qed
qed

lemma yread_uint_ok_spec:
  assumes "ywf s"
  shows "(case yparse_unsigned (ypending s) of
           Some (v, rest) \<Rightarrow>
             fst (yread_uint_ok out mem s) = 1 \<and>
             fst (snd (yread_uint_ok out mem s)) = mem[out := VUInt (ucast v)] \<and>
             ypending (snd (snd (yread_uint_ok out mem s))) = rest
         | None \<Rightarrow>
             fst (yread_uint_ok out mem s) = 0 \<and>
             fst (snd (yread_uint_ok out mem s)) = mem \<and>
             ypending (snd (snd (yread_uint_ok out mem s))) = dropWhile yspace (ypending s)) \<and>
         ywf (snd (snd (yread_uint_ok out mem s)))"
proof -
  define s1 where "s1 = yskip_space s"
  define inp where "inp = dropWhile yspace (ypending s)"
  have s1: "ywf s1" "ypending s1 = inp"
    using yskip_space_spec [OF assms] by (simp_all add: s1_def inp_def)
  obtain c s2 where p: "ypeek s1 = (c, s2)" by (cases "ypeek s1")
  have s2: "ywf s2" "ypending s2 = inp" "c = ychar inp"
    using ypeek_spec [OF s1(1)] p s1(2) by simp_all
  show ?thesis
  proof (cases "inp \<noteq> [] \<and> ydigit (hd inp)")
    case True
    then have dg: "\<not> (c = EOF \<or> c < 48 \<or> c > 57)"
      using ychar_digit [of inp] s2(3) by (auto simp: EOF_def)
    obtain x s3 where l: "ydigit_loop step64 0 s2 = (x, s3)"
      by (cases "ydigit_loop step64 0 s2")
    have s3: "ywf s3" "ypending s3 = dropWhile ydigit inp"
      "x = yvalue64 (takeWhile ydigit inp)"
      using ydigit_loop_spec [OF s2(1) l] s2(2) by (simp_all add: yvalue64_def)
    have "yread_uint_ok out mem s = (1, mem[out := VUInt (ucast x)], s3)"
      using p dg l by (simp add: yread_uint_ok_def s1_def [symmetric])
    moreover have "yparse_unsigned (ypending s)
      = Some (yvalue64 (takeWhile ydigit inp), dropWhile ydigit inp)"
      using True by (simp add: yparse_unsigned_def inp_def [symmetric])
    ultimately show ?thesis using s3 by simp
  next
    case False
    then have dg: "c = EOF \<or> c < 48 \<or> c > 57"
      using ychar_digit [of inp] s2(3) by auto
    have "yread_uint_ok out mem s = (0, mem, s2)"
      using p dg by (simp add: yread_uint_ok_def s1_def [symmetric])
    moreover have "yparse_unsigned (ypending s) = None"
      using False by (simp add: yparse_unsigned_def inp_def [symmetric])
    ultimately show ?thesis using s2 by (simp add: inp_def [symmetric])
  qed
qed

lemma yread_ull_ok_spec:
  assumes "ywf s"
  shows "(case yparse_unsigned (ypending s) of
           Some (v, rest) \<Rightarrow>
             fst (yread_ull_ok out mem s) = 1 \<and>
             fst (snd (yread_ull_ok out mem s)) = mem[out := VULL v] \<and>
             ypending (snd (snd (yread_ull_ok out mem s))) = rest
         | None \<Rightarrow>
             fst (yread_ull_ok out mem s) = 0 \<and>
             fst (snd (yread_ull_ok out mem s)) = mem \<and>
             ypending (snd (snd (yread_ull_ok out mem s))) = dropWhile yspace (ypending s)) \<and>
         ywf (snd (snd (yread_ull_ok out mem s)))"
proof -
  define s1 where "s1 = yskip_space s"
  define inp where "inp = dropWhile yspace (ypending s)"
  have s1: "ywf s1" "ypending s1 = inp"
    using yskip_space_spec [OF assms] by (simp_all add: s1_def inp_def)
  obtain c s2 where p: "ypeek s1 = (c, s2)" by (cases "ypeek s1")
  have s2: "ywf s2" "ypending s2 = inp" "c = ychar inp"
    using ypeek_spec [OF s1(1)] p s1(2) by simp_all
  show ?thesis
  proof (cases "inp \<noteq> [] \<and> ydigit (hd inp)")
    case True
    then have dg: "\<not> (c = EOF \<or> c < 48 \<or> c > 57)"
      using ychar_digit [of inp] s2(3) by (auto simp: EOF_def)
    obtain x s3 where l: "ydigit_loop step64 0 s2 = (x, s3)"
      by (cases "ydigit_loop step64 0 s2")
    have s3: "ywf s3" "ypending s3 = dropWhile ydigit inp"
      "x = yvalue64 (takeWhile ydigit inp)"
      using ydigit_loop_spec [OF s2(1) l] s2(2) by (simp_all add: yvalue64_def)
    have "yread_ull_ok out mem s = (1, mem[out := VULL x], s3)"
      using p dg l by (simp add: yread_ull_ok_def s1_def [symmetric])
    moreover have "yparse_unsigned (ypending s)
      = Some (yvalue64 (takeWhile ydigit inp), dropWhile ydigit inp)"
      using True by (simp add: yparse_unsigned_def inp_def [symmetric])
    ultimately show ?thesis using s3 by simp
  next
    case False
    then have dg: "c = EOF \<or> c < 48 \<or> c > 57"
      using ychar_digit [of inp] s2(3) by auto
    have "yread_ull_ok out mem s = (0, mem, s2)"
      using p dg by (simp add: yread_ull_ok_def s1_def [symmetric])
    moreover have "yparse_unsigned (ypending s) = None"
      using False by (simp add: yparse_unsigned_def inp_def [symmetric])
    ultimately show ?thesis using s2 by (simp add: inp_def [symmetric])
  qed
qed

text \<open>
  Claim C10. When the first byte of the input after white space is \<^verbatim>\<open>+\<close> or
  \<^verbatim>\<open>-\<close>, \<^verbatim>\<open>yread_uint_ok\<close> and \<^verbatim>\<open>yread_ull_ok\<close> return 0, store nothing and
  leave the sign byte as the next byte of the input. \<^verbatim>\<open>yread_int_ok\<close> and
  \<^verbatim>\<open>yread_ll_ok\<close> take the one sign: when a digit follows it they return 1, store
  the signed value of the digit run and leave the input after that run; when no digit
  follows it (a second sign, say) they return 0 and store nothing, the sign being
  consumed.
\<close>

theorem yread_unsigned_rejects_sign:
  assumes "ywf s" and "dropWhile yspace (ypending s) = sg # rest"
    and "sg = CHR ''+'' \<or> sg = CHR ''-''"
  shows "fst (yread_uint_ok out mem s) = 0 \<and>
         fst (snd (yread_uint_ok out mem s)) = mem \<and>
         ypending (snd (snd (yread_uint_ok out mem s))) = sg # rest \<and>
         fst (yread_ull_ok out mem s) = 0 \<and>
         fst (snd (yread_ull_ok out mem s)) = mem \<and>
         ypending (snd (snd (yread_ull_ok out mem s))) = sg # rest \<and>
         (rest \<noteq> [] \<and> ydigit (hd rest) \<longrightarrow>
            fst (yread_int_ok out mem s) = 1 \<and>
            fst (snd (yread_int_ok out mem s))
              = mem[out := VInt (ucast (yvalue64 (takeWhile ydigit rest)
                                        * (if sg = CHR ''-'' then - 1 else 1)))] \<and>
            ypending (snd (snd (yread_int_ok out mem s))) = dropWhile ydigit rest \<and>
            fst (yread_ll_ok out mem s) = 1 \<and>
            fst (snd (yread_ll_ok out mem s))
              = mem[out := VLL (yvalue64 (takeWhile ydigit rest)
                                * (if sg = CHR ''-'' then - 1 else 1))] \<and>
            ypending (snd (snd (yread_ll_ok out mem s))) = dropWhile ydigit rest) \<and>
         (rest = [] \<or> \<not> ydigit (hd rest) \<longrightarrow>
            fst (yread_int_ok out mem s) = 0 \<and>
            fst (snd (yread_int_ok out mem s)) = mem \<and>
            ypending (snd (snd (yread_int_ok out mem s))) = rest \<and>
            fst (yread_ll_ok out mem s) = 0 \<and>
            fst (snd (yread_ll_ok out mem s)) = mem \<and>
            ypending (snd (snd (yread_ll_ok out mem s))) = rest)"
proof -
  have nd: "\<not> ydigit sg" using assms(3) by (auto simp: ydigit_def)
  have u: "yparse_unsigned (ypending s) = None"
    using assms(2) nd by (simp add: yparse_unsigned_def)
  have sg: "ysigned (sg # rest) = ((if sg = CHR ''-'' then - 1 else 1), rest)"
    using assms(3) by (auto simp: ysigned_def)
  have d: "rest \<noteq> [] \<and> ydigit (hd rest) \<Longrightarrow> yparse_signed (ypending s)
      = Some (yvalue64 (takeWhile ydigit rest) * (if sg = CHR ''-'' then - 1 else 1),
              dropWhile ydigit rest)"
    using assms(2) sg by (simp add: yparse_signed_def)
  have n: "rest = [] \<or> \<not> ydigit (hd rest) \<Longrightarrow> yparse_signed (ypending s) = None"
    using assms(2) sg by (auto simp: yparse_signed_def)
  show ?thesis
    using yread_uint_ok_spec [OF assms(1), of out mem] yread_ull_ok_spec [OF assms(1), of out mem]
      yread_int_ok_spec [OF assms(1), of out mem] yread_ll_ok_spec [OF assms(1), of out mem]
      u d n assms(2) sg
    by (cases "rest \<noteq> [] \<and> ydigit (hd rest)") simp_all
qed

theorem yread_unsigned_rejects_sign_witness:
  "ywf (ystart [''  -5 x'']) \<and>
   dropWhile yspace (ypending (ystart [''  -5 x''])) = CHR ''-'' # ''5 x'' \<and>
   fst (yread_uint_ok 0 [VUInt 9] (ystart [''  -5 x''])) = 0 \<and>
   fst (snd (yread_uint_ok 0 [VUInt 9] (ystart [''  -5 x'']))) = [VUInt 9] \<and>
   ypending (snd (snd (yread_uint_ok 0 [VUInt 9] (ystart [''  -5 x''])))) = ''-5 x'' \<and>
   fst (yread_int_ok 0 [VUInt 9] (ystart [''  -5 x''])) = 1 \<and>
   fst (snd (yread_int_ok 0 [VUInt 9] (ystart [''  -5 x'']))) = [VInt (- 5)] \<and>
   ypending (snd (snd (yread_int_ok 0 [VUInt 9] (ystart [''  -5 x''])))) = '' x''"
proof -
  have 1: "ywf (ystart [''  -5 x''])" by code_simp
  have 2: "dropWhile yspace (ypending (ystart [''  -5 x''])) = CHR ''-'' # ''5 x''"
    by code_simp
  have 3: "''5 x'' \<noteq> [] \<and> ydigit (hd ''5 x'')" by code_simp
  have 4: "[VUInt 9][0 := VInt (ucast (yvalue64 (takeWhile ydigit ''5 x'')
      * (if CHR ''-'' = CHR ''-'' then - 1 else 1)))] = [VInt (- 5)]"
    by code_simp
  have 5: "dropWhile ydigit ''5 x'' = '' x''" by code_simp
  from yread_unsigned_rejects_sign [OF 1 2, of 0 "[VUInt 9]"] 3
  have "fst (yread_uint_ok 0 [VUInt 9] (ystart [''  -5 x''])) = 0 \<and>
   fst (snd (yread_uint_ok 0 [VUInt 9] (ystart [''  -5 x'']))) = [VUInt 9] \<and>
   ypending (snd (snd (yread_uint_ok 0 [VUInt 9] (ystart [''  -5 x''])))) = ''-5 x'' \<and>
   fst (yread_int_ok 0 [VUInt 9] (ystart [''  -5 x''])) = 1 \<and>
   fst (snd (yread_int_ok 0 [VUInt 9] (ystart [''  -5 x''])))
     = [VUInt 9][0 := VInt (ucast (yvalue64 (takeWhile ydigit ''5 x'')
      * (if CHR ''-'' = CHR ''-'' then - 1 else 1)))] \<and>
   ypending (snd (snd (yread_int_ok 0 [VUInt 9] (ystart [''  -5 x''])))) = dropWhile ydigit ''5 x''"
    by blast
  then show ?thesis unfolding 4 5 using 1 2 by blast
qed







text \<open>
  Claim C1. \<^verbatim>\<open>yscanf("%d %d", &a, &b)\<close> of version 3.0 on the input \<^verbatim>\<open>42\<close>, after
  which the stream ends: it returns 1, the first slot holds 42 and the second slot holds
  what it held before the call, whatever that was. (The same holds when the two bytes
  arrive in two reads.)
\<close>

theorem yscanf_d_d_on_42:
  "fst (yscanf ''%d %d'' [a, b] (ystart [''42''])) = 1 \<and>
   fst (snd (yscanf ''%d %d'' [a, b] (ystart [''42'']))) = [VInt 42, b] \<and>
   fst (yscanf ''%d %d'' [a, b] (ystart [''4'', ''2''])) = 1 \<and>
   fst (snd (yscanf ''%d %d'' [a, b] (ystart [''4'', ''2'']))) = [VInt 42, b]"
  by code_simp

section \<open>Version 2.0: end of input and overflow\<close>

lemma ynext_char_rereads:
  "yend2 s \<le> yptr2 s \<Longrightarrow>
     freads (stdin2 (snd (ynext_char s))) = freads (stdin2 s) + 1 \<and>
     freads (stdin2 (snd (ypeek_char s))) = freads (stdin2 s) + 1"
  by (cases "chunks (stdin2 s)")
    (simp_all add: ynext_char_def ypeek_char_def yrefill_def fread_def Let_def)

text \<open>
  Claim C4, where it fails. Version 2.0 keeps no flag: on the stream that reports zero
  bytes at the first read and delivers \<^verbatim>\<open>ab\<close> at the second, the first
  \<^verbatim>\<open>ynext_char()\<close> returns \<^verbatim>\<open>EOF\<close>, and the next call reads the stream again
  (two calls of \<^verbatim>\<open>fread\<close> by then) and returns the byte \<^verbatim>\<open>a\<close>;
  \<^verbatim>\<open>ypeek_char()\<close> does the same.
\<close>

theorem ynext_char_not_latched:
  "fst (ynext_char (ystart2 [[], ''ab''])) = EOF \<and>
   freads (stdin2 (snd (ynext_char (ystart2 [[], ''ab''])))) = 1 \<and>
   fst (ynext_char (snd (ynext_char (ystart2 [[], ''ab''])))) = 97 \<and>
   freads (stdin2 (snd (ynext_char (snd (ynext_char (ystart2 [[], ''ab'']))))))  = 2 \<and>
   fst (ypeek_char (snd (ynext_char (ystart2 [[], ''ab''])))) = 97 \<and>
   (97 :: int) \<noteq> EOF"
  by code_simp


text \<open>
  Claim C5, on an input where it fails. The digit run \<^verbatim>\<open>25000000000000000000\<close>
  exceeds \<^verbatim>\<open>LLONG_MAX\<close>, yet the test \<^verbatim>\<open>next < x\<close> of \<^verbatim>\<open>yparse_int\<close> does not
  fire: the product has wrapped to a value above \<^verbatim>\<open>x\<close>. \<^verbatim>\<open>yparse_int\<close> returns
  6553255926290448384 with \<^verbatim>\<open>*overflow\<close> 0 and \<^verbatim>\<open>yread_ll\<close> passes that on in
  place of \<^verbatim>\<open>LLONG_MAX\<close>. In the same way \<^verbatim>\<open>yread_ull\<close> returns
  11553255926290448384 for \<^verbatim>\<open>30000000000000000000\<close>, which exceeds
  \<^verbatim>\<open>ULLONG_MAX\<close>. The dispatcher counts the conversion and stores the wrapped
  value.
\<close>

theorem yparse_int_overflow_missed:
  "fst (yparse_int (ystart2 [''25000000000000000000''])) = 6553255926290448384 \<and>
   fst (snd (yparse_int (ystart2 [''25000000000000000000'']))) = 0 \<and>
   fst (yread_ll (ystart2 [''25000000000000000000''])) = 6553255926290448384 \<and>
   (6553255926290448384 :: 64 word) \<noteq> LLONG_MAX \<and>
   fst (snd (yparse_uint (ystart2 [''30000000000000000000'']))) = 0 \<and>
   fst (yread_ull (ystart2 [''30000000000000000000''])) = 11553255926290448384 \<and>
   (11553255926290448384 :: 64 word) \<noteq> ULLONG_MAX \<and>
   fst (yscanf2 ''%lld'' [VLL 0] (ystart2 [''25000000000000000000''])) = 1 \<and>
   fst (snd (yscanf2 ''%lld'' [VLL 0] (ystart2 [''25000000000000000000''])))
     = [VLL 6553255926290448384]"
  by code_simp

text \<open>
  The 32-bit reader on a digit run between \<^verbatim>\<open>INT32_MAX\<close> and \<^verbatim>\<open>LLONG_MAX\<close>: the
  sentinel comes from the range test of \<^verbatim>\<open>yread_int\<close>, \<^verbatim>\<open>*overflow\<close> staying 0.
\<close>

lemma yread_int_saturates_by_range:
  "fst (snd (yparse_int (ystart2 [''3000000000'']))) = 0 \<and>
   fst (yread_int (ystart2 [''3000000000''])) = INT32_MAX \<and>
   fst (yread_int (ystart2 [''-3000000000''])) = INT32_MIN \<and>
   fst (yread_int (ystart2 [''999999999999999999999999999''])) = INT32_MAX"
  by code_simp

section \<open>Unrecognised directives\<close>

text \<open>
  The type tags that the two dispatchers recognise, as a test on the format text after
  the \<^verbatim>\<open>%\<close>: \<^verbatim>\<open>d u f e g s c lld llu\<close> in version 3.0, and \<^verbatim>\<open>lf\<close> as well in
  version 2.0.
\<close>

definition yknown_tag :: "string \<Rightarrow> bool" where
  "yknown_tag t \<longleftrightarrow>
     take 1 t \<in> {''d'', ''u'', ''f'', ''e'', ''g'', ''s'', ''c''} \<or>
     take 3 t \<in> {''lld'', ''llu''}"

definition yknown_tag2 :: "string \<Rightarrow> bool" where
  "yknown_tag2 t \<longleftrightarrow>
     take 1 t \<in> {''d'', ''u'', ''s'', ''c'', ''g'', ''e'', ''f''} \<or>
     take 2 t = ''lf'' \<or>
     take 3 t \<in> {''lld'', ''llu''}"

lemma yscanf_loop_unknown:
  assumes "\<not> yknown_tag t"
  shows "yscanf_loop (CHR ''%'' # t) cnt ap mem s = (- 1, mem, s)"
proof (cases t)
  case Nil
  then show ?thesis by (simp add: isspace_def)
next
  case (Cons a r)
  note t = this
  with assms have a: "a \<noteq> CHR ''d''" "a \<noteq> CHR ''u''" "a \<noteq> CHR ''f''" "a \<noteq> CHR ''e''"
    "a \<noteq> CHR ''g''" "a \<noteq> CHR ''s''" "a \<noteq> CHR ''c''"
    by (simp_all add: yknown_tag_def)
  show ?thesis
  proof (cases "a = CHR ''l''")
    case False
    with a t show ?thesis by (simp add: isspace_def)
  next
    case l: True
    show ?thesis
    proof (cases r)
      case Nil
      with t l show ?thesis by (simp add: isspace_def)
    next
      case (Cons b r2)
      note r = this
      show ?thesis
      proof (cases "b = CHR ''l''")
        case False
        with t l r show ?thesis by (simp add: isspace_def)
      next
        case l2: True
        show ?thesis
        proof (cases r2)
          case Nil
          with t l r l2 show ?thesis by (simp add: isspace_def)
        next
          case (Cons c r3)
          with assms t l r l2 have "c \<noteq> CHR ''d''" "c \<noteq> CHR ''u''"
            by (simp_all add: yknown_tag_def)
          with t l r l2 Cons show ?thesis by (simp add: isspace_def)
        qed
      qed
    qed
  qed
qed

lemma yscanf2_loop_unknown:
  assumes "\<not> yknown_tag2 t"
  shows "yscanf2_loop (CHR ''%'' # t) cnt skip_space ap mem s = (- 1, mem, s)"
proof (cases t)
  case Nil
  then show ?thesis by (simp add: isspace_def)
next
  case (Cons a r)
  note t = this
  with assms have a: "a \<noteq> CHR ''d''" "a \<noteq> CHR ''u''" "a \<noteq> CHR ''f''" "a \<noteq> CHR ''e''"
    "a \<noteq> CHR ''g''" "a \<noteq> CHR ''s''" "a \<noteq> CHR ''c''"
    by (simp_all add: yknown_tag2_def)
  show ?thesis
  proof (cases "a = CHR ''l''")
    case False
    with a t show ?thesis by (simp add: isspace_def)
  next
    case l: True
    show ?thesis
    proof (cases r)
      case Nil
      with t l show ?thesis by (simp add: isspace_def)
    next
      case (Cons b r2)
      note r = this
      from assms t l r have bf: "b \<noteq> CHR ''f''" by (simp add: yknown_tag2_def)
      show ?thesis
      proof (cases "b = CHR ''l''")
        case False
        with t l r bf show ?thesis by (simp add: isspace_def)
      next
        case l2: True
        show ?thesis
        proof (cases r2)
          case Nil
          with t l r l2 show ?thesis by (simp add: isspace_def)
        next
          case (Cons c r3)
          with assms t l r l2 have "c \<noteq> CHR ''d''" "c \<noteq> CHR ''u''"
            by (simp_all add: yknown_tag2_def)
          with t l r l2 Cons show ?thesis by (simp add: isspace_def)
        qed
      qed
    qed
  qed
qed

text \<open>
  Claim C3. When the dispatcher is at a \<^verbatim>\<open>%\<close> whose tag is not a recognised one, it
  returns \<open>-1\<close> at once, whatever the count \<open>cnt\<close> of conversions already made, the
  output slots and the input are, and it leaves slots and input as they are. This holds
  of \<^verbatim>\<open>yscanf\<close> in version 3.0 and in version 2.0, each with its own set of tags.
\<close>

theorem yscanf_unknown_tag:
  "(\<not> yknown_tag t \<longrightarrow> yscanf_loop (CHR ''%'' # t) cnt ap mem s = (- 1, mem, s)) \<and>
   (\<not> yknown_tag2 t \<longrightarrow>
      yscanf2_loop (CHR ''%'' # t) cnt skip_space ap mem s2 = (- 1, mem, s2))"
  using yscanf_loop_unknown yscanf2_loop_unknown by blast

theorem yscanf_unknown_tag_witness:
  "\<not> yknown_tag ''zzz'' \<and>
   yscanf_loop ''%zzz'' 2 2 [VInt 1, VInt 2] (ystart [''7'']) = (- 1, [VInt 1, VInt 2], ystart [''7'']) \<and>
   \<not> yknown_tag2 ''zzz'' \<and>
   yscanf2_loop ''%zzz'' 2 True 2 [VInt 1, VInt 2] (ystart2 [''7''])
     = (- 1, [VInt 1, VInt 2], ystart2 [''7'']) \<and>
   fst (yscanf ''%d %d %zzz'' [VInt 0, VInt 0] (ystart [''1 2''])) = - 1 \<and>
   fst (snd (yscanf ''%d %d %zzz'' [VInt 0, VInt 0] (ystart [''1 2'']))) = [VInt 1, VInt 2] \<and>
   fst (yscanf2 ''%d %d %zzz'' [VInt 0, VInt 0] (ystart2 [''1 2''])) = - 1"
proof -
  have 1: "\<not> yknown_tag ''zzz''" by code_simp
  have 2: "\<not> yknown_tag2 ''zzz''" by code_simp
  have 3: "fst (yscanf ''%d %d %zzz'' [VInt 0, VInt 0] (ystart [''1 2''])) = - 1 \<and>
   fst (snd (yscanf ''%d %d %zzz'' [VInt 0, VInt 0] (ystart [''1 2'']))) = [VInt 1, VInt 2] \<and>
   fst (yscanf2 ''%d %d %zzz'' [VInt 0, VInt 0] (ystart2 [''1 2''])) = - 1"
    by code_simp
  from yscanf_unknown_tag [of "''zzz''" 2 2 "[VInt 1, VInt 2]" "ystart [''7'']" True
      "ystart2 [''7'']"] 1 2 3
  show ?thesis by simp
qed

section \<open>White space before a number\<close>

lemma yscanf_d:
  "yscanf ''%d'' mem s =
     (if fst (yread_int_ok 0 mem s) = 0 then EOF else 1,
      fst (snd (yread_int_ok 0 mem s)), snd (snd (yread_int_ok 0 mem s)))"
  by (simp add: yscanf_def isspace_def yfail_def split_beta)

lemma yparse_signed_space:
  "\<forall>x\<in>set ws. yspace x \<Longrightarrow> yparse_signed (ws @ inp) = yparse_signed inp"
  by (simp add: yparse_signed_def dropWhile_append2)

text \<open>
  Claim C8. \<^verbatim>\<open>yscanf("%d", &x)\<close> of version 3.0 returns 1 with \<^verbatim>\<open>x\<close> = 7 on the
  input \<^verbatim>\<open>"   7"\<close> and on the input \<^verbatim>\<open>"7"\<close>. In general, white space \<open>ws\<close> put
  before the pending input changes neither the value returned nor the contents of the
  output slots.
\<close>

theorem yscanf_d_leading_space:
  "fst (yscanf ''%d'' [a] (ystart [''   7''])) = 1 \<and>
   fst (snd (yscanf ''%d'' [a] (ystart [''   7'']))) = [VInt 7] \<and>
   fst (yscanf ''%d'' [a] (ystart [''7''])) = 1 \<and>
   fst (snd (yscanf ''%d'' [a] (ystart [''7'']))) = [VInt 7] \<and>
   (ywf s \<and> ywf s' \<and> (\<forall>x\<in>set ws. yspace x) \<and> ypending s' = ws @ ypending s \<longrightarrow>
      fst (yscanf ''%d'' mem s') = fst (yscanf ''%d'' mem s) \<and>
      fst (snd (yscanf ''%d'' mem s')) = fst (snd (yscanf ''%d'' mem s)))"
proof -
  have c: "fst (yscanf ''%d'' [a] (ystart [''   7''])) = 1 \<and>
   fst (snd (yscanf ''%d'' [a] (ystart [''   7'']))) = [VInt 7] \<and>
   fst (yscanf ''%d'' [a] (ystart [''7''])) = 1 \<and>
   fst (snd (yscanf ''%d'' [a] (ystart [''7'']))) = [VInt 7]"
    by code_simp
  have g: "fst (yscanf ''%d'' mem s') = fst (yscanf ''%d'' mem s) \<and>
      fst (snd (yscanf ''%d'' mem s')) = fst (snd (yscanf ''%d'' mem s))"
    if h: "ywf s \<and> ywf s' \<and> (\<forall>x\<in>set ws. yspace x) \<and> ypending s' = ws @ ypending s"
  proof -
    from h have e: "yparse_signed (ypending s') = yparse_signed (ypending s)"
      by (simp add: yparse_signed_space)
    from h have "ywf s" "ywf s'" by simp_all
    from yread_int_ok_spec [OF this(1), of 0 mem] yread_int_ok_spec [OF this(2), of 0 mem] e
    show ?thesis
      by (cases "yparse_signed (ypending s)") (auto simp: yscanf_d)
  qed
  from c g show ?thesis by blast
qed

theorem yscanf_d_leading_space_witness:
  "ywf (ystart [''7 8'']) \<and> ywf (ystart [''  '', ''7 8'']) \<and>
   yspace (CHR '' '') \<and>
   ypending (ystart [''  '', ''7 8'']) = ''  '' @ ypending (ystart [''7 8'']) \<and>
   fst (yscanf ''%d'' [VInt 0] (ystart [''  '', ''7 8''])) = 1 \<and>
   fst (yscanf ''%d'' [VInt 0] (ystart [''7 8''])) = 1 \<and>
   fst (snd (yscanf ''%d'' [VInt 0] (ystart [''  '', ''7 8'']))) = [VInt 7] \<and>
   fst (snd (yscanf ''%d'' [VInt 0] (ystart [''7 8'']))) = [VInt 7]"
proof -
  have sp: "yspace (CHR '' '')" by code_simp
  then have b: "\<forall>x\<in>set ''  ''. yspace x" by simp
  have h: "ywf (ystart [''7 8'']) \<and> ywf (ystart [''  '', ''7 8'']) \<and>
   ypending (ystart [''  '', ''7 8'']) = ''  '' @ ypending (ystart [''7 8''])"
    by code_simp
  have v: "fst (yscanf ''%d'' [VInt 0] (ystart [''7 8''])) = 1 \<and>
   fst (snd (yscanf ''%d'' [VInt 0] (ystart [''7 8'']))) = [VInt 7]"
    by code_simp
  from yscanf_d_leading_space [of "VInt 0" "ystart [''7 8'']" "ystart [''  '', ''7 8'']" "''  ''"
      "[VInt 0]"] h b
  have "fst (yscanf ''%d'' [VInt 0] (ystart [''  '', ''7 8'']))
      = fst (yscanf ''%d'' [VInt 0] (ystart [''7 8''])) \<and>
    fst (snd (yscanf ''%d'' [VInt 0] (ystart [''  '', ''7 8''])))
      = fst (snd (yscanf ''%d'' [VInt 0] (ystart [''7 8''])))"
    by blast
  with h v sp show ?thesis by simp
qed

section \<open>White space in the format\<close>

lemma yspace_not_nul: "yspace w \<Longrightarrow> w \<noteq> CHR 0x00"
  by (auto simp: yspace_def isspace_def)

lemma yspace_not_percent: "yspace w \<Longrightarrow> w \<noteq> CHR ''%''"
  by (auto simp: yspace_def isspace_def)

lemma yscanf2_loop_no_directive:
  "CHR ''%'' \<notin> set fmt \<Longrightarrow> yscanf2_loop fmt cnt skip_space ap mem s = (cnt, mem, s)"
  by (induction fmt arbitrary: skip_space) auto

lemma yscanf2_loop_space_prefix:
  "\<forall>x\<in>set ws. yspace x \<Longrightarrow>
     yscanf2_loop (ws @ rest) cnt skip_space ap mem s
       = yscanf2_loop rest cnt (skip_space \<or> ws \<noteq> []) ap mem s"
proof (induction ws arbitrary: skip_space)
  case Nil
  show ?case by simp
next
  case (Cons w ws)
  then have w: "yspace w" and ws: "\<forall>x\<in>set ws. yspace x" by simp_all
  from w have "isspace (int (of_char w))" "w \<noteq> CHR 0x00"
    by (simp_all add: yspace_def yspace_not_nul)
  then have "yscanf2_loop ((w # ws) @ rest) cnt skip_space ap mem s
    = yscanf2_loop (ws @ rest) cnt True ap mem s"
    by simp
  also have "\<dots> = yscanf2_loop rest cnt (True \<or> ws \<noteq> []) ap mem s"
    by (rule Cons.IH [OF ws])
  finally show ?case by simp
qed

text \<open>
  In version 2.0 a recognised conversion reached with \<^verbatim>\<open>skip_space\<close> set does what
  it does with the flag clear after \<^verbatim>\<open>yskip_space_input()\<close>: the skip that a white
  space directive asked for is carried out here.
\<close>

lemma yscanf2_loop_flag:
  assumes "yknown_tag2 t"
  shows "yscanf2_loop (CHR ''%'' # t) cnt True ap mem s
         = yscanf2_loop (CHR ''%'' # t) cnt False ap mem (yskip_space_input s)"
proof (cases t)
  case Nil
  with assms show ?thesis by (simp add: yknown_tag2_def)
next
  case (Cons a r)
  note t = this
  show ?thesis
  proof (cases "a = CHR ''l''")
    case False
    with assms t have "a = CHR ''d'' \<or> a = CHR ''u'' \<or> a = CHR ''s'' \<or> a = CHR ''c'' \<or>
      a = CHR ''g'' \<or> a = CHR ''e'' \<or> a = CHR ''f''"
      by (cases r) (auto simp: yknown_tag2_def)
    then show ?thesis
      by (elim disjE) (simp_all add: t isspace_def yskip_if_def)
  next
    case l: True
    show ?thesis
    proof (cases r)
      case Nil
      with assms t l show ?thesis by (simp add: yknown_tag2_def)
    next
      case (Cons b r2)
      note r = this
      show ?thesis
      proof (cases "b = CHR ''f''")
        case True
        with t l r show ?thesis by (simp add: isspace_def yskip_if_def)
      next
        case bf: False
        with assms t l r have b: "b = CHR ''l''"
          by (cases r2) (auto simp: yknown_tag2_def)
        show ?thesis
        proof (cases r2)
          case Nil
          with assms t l r b show ?thesis by (simp add: yknown_tag2_def)
        next
          case (Cons c r3)
          with assms t l r b have "c = CHR ''d'' \<or> c = CHR ''u''"
            by (auto simp: yknown_tag2_def)
          then show ?thesis
            by (elim disjE) (simp_all add: t l r b Cons isspace_def yskip_if_def)
        qed
      qed
    qed
  qed
qed

lemma yscanf_loop_spaces:
  "\<forall>x\<in>set fmt. yspace x \<Longrightarrow> ywf s \<Longrightarrow>
     fst (yscanf_loop fmt cnt ap mem s) = cnt \<and>
     fst (snd (yscanf_loop fmt cnt ap mem s)) = mem \<and>
     ypending (snd (snd (yscanf_loop fmt cnt ap mem s)))
       = (if fmt = [] then ypending s else dropWhile yspace (ypending s)) \<and>
     ywf (snd (snd (yscanf_loop fmt cnt ap mem s)))"
proof (induction fmt arbitrary: s)
  case Nil
  then show ?case by simp
next
  case (Cons w fmt)
  then have w: "yspace w" and ws: "\<forall>x\<in>set fmt. yspace x" by simp_all
  from w have "isspace (int (of_char w))" "w \<noteq> CHR 0x00"
    by (simp_all add: yspace_def yspace_not_nul)
  then have e: "yscanf_loop (w # fmt) cnt ap mem s = yscanf_loop fmt cnt ap mem (yskip_space s)"
    by simp
  have k: "ywf (yskip_space s)" "ypending (yskip_space s) = dropWhile yspace (ypending s)"
    using yskip_space_spec [OF Cons.prems(2)] by simp_all
  from Cons.IH [OF ws k(1)] show ?case unfolding e by (simp add: k(2))
qed

text \<open>
  A literal character between the white space and the conversion clears the flag of
  version 2.0 (\<^verbatim>\<open>skip_space = 0\<close>): no white space is skipped then.
\<close>

lemma yscanf2_literal_clears_flag:
  "fst (snd (yscanf2 '' ,%c'' [a] (ystart2 [''  x''])))  = [VChar (CHR '' '')] \<and>
   fst (snd (yscanf2 '' %c'' [a] (ystart2 [''  x''])))  = [VChar (CHR ''x'')]"
  by code_simp

text \<open>
  Claim C6, as the code has it. In version 2.0 a white space directive only sets
  \<^verbatim>\<open>skip_space\<close>: a format without \<^verbatim>\<open>%\<close> leaves the input state as it was, and a
  run \<open>ws\<close> of white space directly before a recognised conversion has the effect of
  \<^verbatim>\<open>yskip_space_input()\<close> carried out at that conversion. In version 3.0 the white
  space directive skips the white space of the input itself: a format \<open>ws\<close> of white
  space alone returns 0 and leaves the input without its leading white space.
\<close>

theorem yscanf_space_directive:
  "(CHR ''%'' \<notin> set fmt \<longrightarrow> yscanf2 fmt mem s2 = (0, mem, s2)) \<and>
   ((\<forall>x\<in>set ws. yspace x) \<and> ws \<noteq> [] \<and> yknown_tag2 t \<longrightarrow>
      yscanf2_loop (ws @ CHR ''%'' # t) cnt skip_space ap mem s2
        = yscanf2_loop (CHR ''%'' # t) cnt False ap mem (yskip_space_input s2)) \<and>
   ((\<forall>x\<in>set ws. yspace x) \<and> ws \<noteq> [] \<and> ywf s \<longrightarrow>
      fst (yscanf ws mem s) = 0 \<and> fst (snd (yscanf ws mem s)) = mem \<and>
      ypending (snd (snd (yscanf ws mem s))) = dropWhile yspace (ypending s))"
proof (intro conjI impI)
  assume "CHR ''%'' \<notin> set fmt"
  then show "yscanf2 fmt mem s2 = (0, mem, s2)"
    by (simp add: yscanf2_def yscanf2_loop_no_directive)
next
  assume a: "(\<forall>x\<in>set ws. yspace x) \<and> ws \<noteq> [] \<and> yknown_tag2 t"
  then have "yscanf2_loop (ws @ CHR ''%'' # t) cnt skip_space ap mem s2
    = yscanf2_loop (CHR ''%'' # t) cnt True ap mem s2"
    by (simp add: yscanf2_loop_space_prefix)
  also from a have "yknown_tag2 t" by simp
  then have "yscanf2_loop (CHR ''%'' # t) cnt True ap mem s2
    = yscanf2_loop (CHR ''%'' # t) cnt False ap mem (yskip_space_input s2)"
    by (rule yscanf2_loop_flag)
  finally show "yscanf2_loop (ws @ CHR ''%'' # t) cnt skip_space ap mem s2
    = yscanf2_loop (CHR ''%'' # t) cnt False ap mem (yskip_space_input s2)" .
next
  assume a: "(\<forall>x\<in>set ws. yspace x) \<and> ws \<noteq> [] \<and> ywf s"
  then have "\<forall>x\<in>set ws. yspace x" "ywf s" "ws \<noteq> []" by simp_all
  from yscanf_loop_spaces [OF this(1,2), of 0 0 mem] this(3)
  show "fst (yscanf ws mem s) = 0" "fst (snd (yscanf ws mem s)) = mem"
    "ypending (snd (snd (yscanf ws mem s))) = dropWhile yspace (ypending s)"
    by (simp_all add: yscanf_def)
qed

theorem yscanf_space_directive_witness:
  "CHR ''%'' \<notin> set '' , '' \<and>
   yscanf2 '' , '' [VInt 1] (ystart2 [''  7'']) = (0, [VInt 1], ystart2 [''  7'']) \<and>
   yspace (CHR '' '') \<and> ''  '' \<noteq> [] \<and> yknown_tag2 ''c'' \<and>
   yscanf2_loop ''  %c'' 0 False 0 [VChar (CHR ''a'')] (ystart2 [''  x''])
     = yscanf2_loop ''%c'' 0 False 0 [VChar (CHR ''a'')] (yskip_space_input (ystart2 [''  x''])) \<and>
   fst (snd (yscanf2 ''  %c'' [VChar (CHR ''a'')] (ystart2 [''  x''])))  = [VChar (CHR ''x'')] \<and>
   fst (snd (yscanf2 ''%c'' [VChar (CHR ''a'')] (ystart2 [''  x''])))  = [VChar (CHR '' '')] \<and>
   ywf (ystart [''  x'']) \<and>
   fst (yscanf ''  '' [VInt 1] (ystart [''  x''])) = 0 \<and>
   fst (snd (yscanf ''  '' [VInt 1] (ystart [''  x'']))) = [VInt 1] \<and>
   ypending (snd (snd (yscanf ''  '' [VInt 1] (ystart [''  x''])))) = ''x''"
proof -
  have 1: "CHR ''%'' \<notin> set '' , ''" by code_simp
  have sp: "yspace (CHR '' '')" by code_simp
  then have b: "\<forall>x\<in>set ''  ''. yspace x" by simp
  have 2: "''  '' \<noteq> []" "yknown_tag2 ''c''" "ywf (ystart [''  x''])" by code_simp+
  have 3: "fst (snd (yscanf2 ''  %c'' [VChar (CHR ''a'')] (ystart2 [''  x''])))  = [VChar (CHR ''x'')] \<and>
   fst (snd (yscanf2 ''%c'' [VChar (CHR ''a'')] (ystart2 [''  x''])))  = [VChar (CHR '' '')]"
    by code_simp
  have 4: "dropWhile yspace (ypending (ystart [''  x''])) = ''x''" by code_simp
  note t1 = yscanf_space_directive [of "'' , ''" "[VInt 1]" "ystart2 [''  7'']" "''  ''" "''c''" 0
      False 0 "ystart [''  x'']"]
  note t2 = yscanf_space_directive [of "'' , ''" "[VChar (CHR ''a'')]" "ystart2 [''  x'']" "''  ''"
      "''c''" 0 False 0 "ystart [''  x'']"]
  from t1 1 have a: "yscanf2 '' , '' [VInt 1] (ystart2 [''  7'']) = (0, [VInt 1], ystart2 [''  7''])"
    by blast
  from t2 b 2 have c: "yscanf2_loop (''  '' @ CHR ''%'' # ''c'') 0 False 0 [VChar (CHR ''a'')]
      (ystart2 [''  x''])
     = yscanf2_loop (CHR ''%'' # ''c'') 0 False 0 [VChar (CHR ''a'')]
      (yskip_space_input (ystart2 [''  x'']))"
    by blast
  from t1 b 2 have d: "fst (yscanf ''  '' [VInt 1] (ystart [''  x''])) = 0 \<and>
      fst (snd (yscanf ''  '' [VInt 1] (ystart [''  x'']))) = [VInt 1] \<and>
      ypending (snd (snd (yscanf ''  '' [VInt 1] (ystart [''  x'']))))
        = dropWhile yspace (ypending (ystart [''  x'']))"
    by blast
  from c have c': "yscanf2_loop ''  %c'' 0 False 0 [VChar (CHR ''a'')] (ystart2 [''  x''])
     = yscanf2_loop ''%c'' 0 False 0 [VChar (CHR ''a'')] (yskip_space_input (ystart2 [''  x'']))"
    by simp
  from 1 a sp 2 c' 3 d show ?thesis unfolding 4 by blast
qed

text \<open>
  Claim C6, where it fails. In version 3.0 the format \<^verbatim>\<open>" "\<close>, a white space
  directive followed by no conversion, consumes the two blanks at the front of the
  input \<^verbatim>\<open>"  x"\<close>: the call returns 0 with \<^verbatim>\<open>yptr\<close> two bytes on and \<^verbatim>\<open>x\<close> the
  input left.
\<close>

theorem yscanf_space_directive_consumes:
  "ypending (ystart [''  x'']) = ''  x'' \<and>
   fst (yscanf '' '' [] (ystart [''  x''])) = 0 \<and>
   yptr (snd (snd (yscanf '' '' [] (ystart [''  x''])))) = 2 \<and>
   ypending (snd (snd (yscanf '' '' [] (ystart [''  x''])))) = ''x''"
  by code_simp

section \<open>The line readers\<close>

text \<open>
  A line of the input: \<open>yeol\<close> holds of the bytes \<^verbatim>\<open>\n\<close> and \<^verbatim>\<open>\r\<close>, \<open>yline\<close> is
  the part of an input before the first of them, \<open>yline_tail\<close> the input from there
  on, and \<open>yafter_eol\<close> takes one line terminator (\<^verbatim>\<open>\n\<close>, \<^verbatim>\<open>\r\<close> or \<^verbatim>\<open>\r\n\<close>)
  off the front of such a tail.
\<close>

definition yeol :: "char \<Rightarrow> bool" where
  "yeol x \<longleftrightarrow> x = CHR 0x0A \<or> x = CHR 0x0D"

definition yline :: "string \<Rightarrow> string" where
  "yline inp = takeWhile (\<lambda>x. \<not> yeol x) inp"

definition yline_tail :: "string \<Rightarrow> string" where
  "yline_tail inp = dropWhile (\<lambda>x. \<not> yeol x) inp"

definition yafter_eol :: "string \<Rightarrow> string" where
  "yafter_eol r =
     (case r of
        [] \<Rightarrow> []
      | t # r1 \<Rightarrow>
          (case r1 of
             [] \<Rightarrow> []
           | u # r2 \<Rightarrow> if t = CHR 0x0D \<and> u = CHR 0x0A then r2 else r1))"

lemma ybyte_nl: "(of_char x :: nat) = 10 \<longleftrightarrow> x = CHR 0x0A"
  using of_char_eq_iff [of x "CHR 0x0A", where ?'a = nat] by simp

lemma ybyte_cr: "(of_char x :: nat) = 13 \<longleftrightarrow> x = CHR 0x0D"
  using of_char_eq_iff [of x "CHR 0x0D", where ?'a = nat] by simp

lemma ychar_eol: "ychar (x # r) = 10 \<or> ychar (x # r) = 13 \<longleftrightarrow> yeol x"
  by (simp add: ychar_def yeol_def ybyte_nl ybyte_cr)

lemma char_of_byte: "char_of (int (of_char x)) = x"
  by (metis char_of_char of_nat_of_char)

lemma ytake_step:
  "(if int (length acc) < maxlen - 1 then acc @ [x] else acc) @
     take (nat (maxlen - 1) - length (if int (length acc) < maxlen - 1 then acc @ [x] else acc)) l
   = acc @ take (nat (maxlen - 1) - length acc) (x # l)"
proof (cases "int (length acc) < maxlen - 1")
  case True
  then have "length acc < nat (maxlen - 1)" by linarith
  then obtain k where k: "nat (maxlen - 1) - length acc = Suc k"
    by (metis Suc_diff_Suc)
  then have "nat (maxlen - 1) - Suc (length acc) = k" by linarith
  with True k show ?thesis by simp
next
  case False
  then have "nat (maxlen - 1) - length acc = 0" by linarith
  with False show ?thesis by simp
qed

lemma yline_loop_spec:
  "ywf s \<Longrightarrow> ypending s = tl cur \<Longrightarrow>
     fst (yline_loop maxlen (ychar cur) acc s) = ychar (yline_tail cur) \<and>
     fst (snd (yline_loop maxlen (ychar cur) acc s))
       = acc @ take (nat (maxlen - 1) - length acc) (yline cur) \<and>
     ypending (snd (snd (yline_loop maxlen (ychar cur) acc s))) = tl (yline_tail cur) \<and>
     ywf (snd (snd (yline_loop maxlen (ychar cur) acc s)))"
proof (induction cur arbitrary: acc s)
  case Nil
  have "yline_loop maxlen (ychar []) acc s = (ychar [], acc, s)"
    by (subst yline_loop.simps) (simp add: ychar_def)
  with Nil show ?case by (simp add: yline_def yline_tail_def)
next
  case (Cons x r)
  show ?case
  proof (cases "yeol x")
    case True
    then have "ychar (x # r) = 10 \<or> ychar (x # r) = 13" by (simp add: ychar_eol)
    then have "yline_loop maxlen (ychar (x # r)) acc s = (ychar (x # r), acc, s)"
      by (subst yline_loop.simps) auto
    with Cons.prems True show ?thesis by (simp add: yline_def yline_tail_def)
  next
    case False
    then have n: "ychar (x # r) \<noteq> 10" "ychar (x # r) \<noteq> 13" using ychar_eol [of x r] by auto
    have e: "ychar (x # r) \<noteq> EOF" by (simp add: ychar_EOF)
    obtain c1 s1 where g: "yget s = (c1, s1)" by (cases "yget s")
    from yget_spec [OF Cons.prems(1)] g Cons.prems(2)
    have s1: "c1 = ychar r" "ypending s1 = tl r" "ywf s1" by simp_all
    define acc1 where
      "acc1 = (if int (length acc) < maxlen - 1 then acc @ [char_of (ychar (x # r))] else acc)"
    have a1: "acc1 = (if int (length acc) < maxlen - 1 then acc @ [x] else acc)"
      by (simp add: acc1_def ychar_def char_of_byte)
    have u: "yline_loop maxlen (ychar (x # r)) acc s = yline_loop maxlen (ychar r) acc1 s1"
      using n e g s1(1) by (subst yline_loop.simps) (simp add: acc1_def Let_def)
    have t: "acc1 @ take (nat (maxlen - 1) - length acc1) (yline r)
      = acc @ take (nat (maxlen - 1) - length acc) (yline (x # r))"
      unfolding a1 using False by (simp add: ytake_step yline_def)
    from Cons.IH [OF s1(3) s1(2), of acc1] False
    show ?thesis unfolding u t [symmetric] by (simp add: yline_tail_def)
  qed
qed

lemma yline_rest_spec:
  assumes "ywf s" and "ypending s = tl cur"
  shows "fst (yline_rest out maxlen (ychar cur) mem s) = 1 \<and>
         fst (snd (yline_rest out maxlen (ychar cur) mem s))
           = mem[out := VStr (take (nat (maxlen - 1)) (yline cur))] \<and>
         ypending (snd (snd (yline_rest out maxlen (ychar cur) mem s)))
           = yafter_eol (yline_tail cur) \<and>
         ywf (snd (snd (yline_rest out maxlen (ychar cur) mem s)))"
proof -
  obtain c1 acc s1 where l: "yline_loop maxlen (ychar cur) [] s = (c1, acc, s1)"
    by (cases "yline_loop maxlen (ychar cur) [] s") auto
  from yline_loop_spec [OF assms, of maxlen "[]"] l
  have s1: "c1 = ychar (yline_tail cur)" "acc = take (nat (maxlen - 1)) (yline cur)"
    "ypending s1 = tl (yline_tail cur)" "ywf s1"
    by simp_all
  define s2 where "s2 = (if c1 = 13 then
       (let (c2, s') = ypeek s1 in if c2 = 10 then snd (yget s') else s') else s1)"
  have r: "yline_rest out maxlen (ychar cur) mem s = (1, mem[out := VStr acc], s2)"
    by (simp add: yline_rest_def l s2_def)
  have "ypending s2 = yafter_eol (yline_tail cur) \<and> ywf s2"
  proof (cases "yline_tail cur")
    case Nil
    with s1 show ?thesis by (simp add: s2_def ychar_def EOF_def yafter_eol_def)
  next
    case (Cons t r1)
    note tl = this
    show ?thesis
    proof (cases "t = CHR 0x0D")
      case False
      then have "c1 \<noteq> 13" using s1(1) tl by (simp add: ychar_def ybyte_cr)
      with s1 tl False show ?thesis
        by (cases r1) (simp_all add: s2_def yafter_eol_def)
    next
      case True
      then have c: "c1 = 13" using s1(1) tl by (simp add: ychar_def)
      obtain c2 s' where p: "ypeek s1 = (c2, s')" by (cases "ypeek s1")
      from ypeek_spec [OF s1(4)] p s1(3) tl
      have s': "c2 = ychar r1" "ypending s' = r1" "ywf s'" by simp_all
      show ?thesis
      proof (cases r1)
        case Nil
        with s' have "c2 \<noteq> 10" by (simp add: ychar_def EOF_def)
        with c p s' Nil tl show ?thesis by (simp add: s2_def yafter_eol_def)
      next
        case (Cons u r2)
        show ?thesis
        proof (cases "u = CHR 0x0A")
          case True
          with s' Cons have "c2 = 10" by (simp add: ychar_def)
          moreover from yget_spec [OF s'(3)] s'(2) Cons
          have "ypending (snd (yget s')) = r2" "ywf (snd (yget s'))" by simp_all
          ultimately show ?thesis
            using c p tl Cons True \<open>t = CHR 0x0D\<close> by (simp add: s2_def yafter_eol_def)
        next
          case False
          with s' Cons have "c2 \<noteq> 10" by (simp add: ychar_def ybyte_nl)
          with c p s' Cons tl False show ?thesis by (simp add: s2_def yafter_eol_def)
        qed
      qed
    qed
  qed
  with r s1(2) show ?thesis by simp
qed

lemma ygetline_ok_spec:
  assumes "ywf s"
  shows "(ypending s = [] \<longrightarrow>
            fst (ygetline_ok out maxlen mem s) = 0 \<and>
            fst (snd (ygetline_ok out maxlen mem s)) = mem \<and>
            ypending (snd (snd (ygetline_ok out maxlen mem s))) = []) \<and>
         (ypending s \<noteq> [] \<longrightarrow>
            fst (ygetline_ok out maxlen mem s) = 1 \<and>
            fst (snd (ygetline_ok out maxlen mem s))
              = mem[out := VStr (take (nat (maxlen - 1)) (yline (ypending s)))] \<and>
            ypending (snd (snd (ygetline_ok out maxlen mem s)))
              = yafter_eol (yline_tail (ypending s)))"
proof -
  obtain c s1 where g: "yget s = (c, s1)" by (cases "yget s")
  from yget_spec [OF assms] g
  have s1: "c = ychar (ypending s)" "ypending s1 = tl (ypending s)" "ywf s1" by simp_all
  show ?thesis
  proof (cases "ypending s = []")
    case True
    with s1 have "c = EOF" by (simp add: ychar_def)
    with g s1 True show ?thesis by (simp add: ygetline_ok_def)
  next
    case False
    with s1 have "c \<noteq> EOF" by (simp add: ychar_EOF)
    with g s1(1) have "ygetline_ok out maxlen mem s
      = yline_rest out maxlen (ychar (ypending s)) mem s1"
      by (simp add: ygetline_ok_def)
    with yline_rest_spec [OF s1(3) s1(2), of out maxlen mem] False show ?thesis by simp
  qed
qed

lemma yread_line_ok_spec:
  "ywf s \<Longrightarrow> ypending s = inp \<Longrightarrow>
     (dropWhile yeol inp = [] \<longrightarrow>
        fst (yread_line_ok out maxlen mem s) = 0 \<and>
        fst (snd (yread_line_ok out maxlen mem s)) = mem \<and>
        ypending (snd (snd (yread_line_ok out maxlen mem s))) = []) \<and>
     (dropWhile yeol inp \<noteq> [] \<longrightarrow>
        fst (yread_line_ok out maxlen mem s) = 1 \<and>
        fst (snd (yread_line_ok out maxlen mem s))
          = mem[out := VStr (take (nat (maxlen - 1)) (yline (dropWhile yeol inp)))] \<and>
        ypending (snd (snd (yread_line_ok out maxlen mem s)))
          = yafter_eol (yline_tail (dropWhile yeol inp)))"
proof (induction inp arbitrary: s)
  case Nil
  obtain c s1 where g: "yget s = (c, s1)" by (cases "yget s")
  from yget_spec [OF Nil(1)] g Nil(2)
  have "c = EOF" "ypending s1 = []" by (simp_all add: ychar_def)
  with g have "yread_line_ok out maxlen mem s = (0, mem, s1)"
    by (subst yread_line_ok.simps) simp
  with \<open>ypending s1 = []\<close> show ?case by simp
next
  case (Cons x r)
  obtain c s1 where g: "yget s = (c, s1)" by (cases "yget s")
  from yget_spec [OF Cons.prems(1)] g Cons.prems(2)
  have s1: "c = ychar (x # r)" "ypending s1 = r" "ywf s1" by simp_all
  have e: "c \<noteq> EOF" using s1(1) by (simp add: ychar_EOF)
  show ?case
  proof (cases "yeol x")
    case True
    then have "c = 10 \<or> c = 13" using s1(1) by (simp add: ychar_eol)
    with g e have "yread_line_ok out maxlen mem s = yread_line_ok out maxlen mem s1"
      by (subst yread_line_ok.simps) auto
    with Cons.IH [OF s1(3) s1(2)] True show ?thesis by simp
  next
    case False
    then have "\<not> (c = 10 \<or> c = 13)" using s1(1) by (simp add: ychar_eol)
    with g e s1(1) have "yread_line_ok out maxlen mem s
      = yline_rest out maxlen (ychar (x # r)) mem s1"
      by (subst yread_line_ok.simps) auto
    with yline_rest_spec [OF s1(3), of "x # r" out maxlen mem] s1(2) False
    show ?thesis by simp
  qed
qed

text \<open>
  Claim C7, as the code has it. \<^verbatim>\<open>ygetline_ok\<close> does what the claim says: it
  returns 0, storing nothing, exactly when no input is left; otherwise it returns 1,
  stores the first \<^verbatim>\<open>maxlen-1\<close> bytes of the line that starts at the very next byte
  (white space included), and leaves the input after the line's terminator, the whole
  line having been consumed. \<^verbatim>\<open>yread_line_ok\<close> does the same from the first byte that
  is neither \<^verbatim>\<open>\n\<close> nor \<^verbatim>\<open>\r\<close>: it consumes those bytes first, and returns 0 when
  nothing comes after them.
\<close>

theorem yline_readers:
  assumes "ywf s"
  shows "(ypending s = [] \<longrightarrow>
            fst (ygetline_ok out maxlen mem s) = 0 \<and>
            fst (snd (ygetline_ok out maxlen mem s)) = mem \<and>
            ypending (snd (snd (ygetline_ok out maxlen mem s))) = []) \<and>
         (ypending s \<noteq> [] \<longrightarrow>
            fst (ygetline_ok out maxlen mem s) = 1 \<and>
            fst (snd (ygetline_ok out maxlen mem s))
              = mem[out := VStr (take (nat (maxlen - 1)) (yline (ypending s)))] \<and>
            ypending (snd (snd (ygetline_ok out maxlen mem s)))
              = yafter_eol (yline_tail (ypending s))) \<and>
         (dropWhile yeol (ypending s) = [] \<longrightarrow>
            fst (yread_line_ok out maxlen mem s) = 0 \<and>
            fst (snd (yread_line_ok out maxlen mem s)) = mem \<and>
            ypending (snd (snd (yread_line_ok out maxlen mem s))) = []) \<and>
         (dropWhile yeol (ypending s) \<noteq> [] \<longrightarrow>
            fst (yread_line_ok out maxlen mem s) = 1 \<and>
            fst (snd (yread_line_ok out maxlen mem s))
              = mem[out := VStr (take (nat (maxlen - 1)) (yline (dropWhile yeol (ypending s))))] \<and>
            ypending (snd (snd (yread_line_ok out maxlen mem s)))
              = yafter_eol (yline_tail (dropWhile yeol (ypending s))))"
  using ygetline_ok_spec [OF assms, of out maxlen mem]
    yread_line_ok_spec [OF assms refl, of out maxlen mem]
  by blast

theorem yline_readers_witness:
  "ywf (ystart [''  ab c'' @ [CHR 0x0D], CHR 0x0A # ''xy'']) \<and>
   ypending (ystart [''  ab c'' @ [CHR 0x0D], CHR 0x0A # ''xy'']) \<noteq> [] \<and>
   fst (ygetline_ok 0 4 [VStr ''zz''] (ystart [''  ab c'' @ [CHR 0x0D], CHR 0x0A # ''xy''])) = 1 \<and>
   fst (snd (ygetline_ok 0 4 [VStr ''zz''] (ystart [''  ab c'' @ [CHR 0x0D], CHR 0x0A # ''xy''])))
     = [VStr ''  a''] \<and>
   ypending (snd (snd (ygetline_ok 0 4 [VStr ''zz'']
       (ystart [''  ab c'' @ [CHR 0x0D], CHR 0x0A # ''xy''])))) = ''xy'' \<and>
   dropWhile yeol (ypending (ystart [''  ab c'' @ [CHR 0x0D], CHR 0x0A # ''xy''])) \<noteq> [] \<and>
   fst (yread_line_ok 0 4 [VStr ''zz''] (ystart [''  ab c'' @ [CHR 0x0D], CHR 0x0A # ''xy''])) = 1 \<and>
   fst (snd (yread_line_ok 0 4 [VStr ''zz''] (ystart [''  ab c'' @ [CHR 0x0D], CHR 0x0A # ''xy''])))
     = [VStr ''  a''] \<and>
   ypending (snd (snd (yread_line_ok 0 4 [VStr ''zz'']
       (ystart [''  ab c'' @ [CHR 0x0D], CHR 0x0A # ''xy''])))) = ''xy'' \<and>
   ywf (ystart []) \<and> ypending (ystart []) = [] \<and> dropWhile yeol (ypending (ystart [])) = [] \<and>
   fst (ygetline_ok 0 4 [VStr ''zz''] (ystart [])) = 0 \<and>
   fst (snd (ygetline_ok 0 4 [VStr ''zz''] (ystart []))) = [VStr ''zz''] \<and>
   fst (yread_line_ok 0 4 [VStr ''zz''] (ystart [])) = 0 \<and>
   fst (snd (yread_line_ok 0 4 [VStr ''zz''] (ystart []))) = [VStr ''zz'']"
proof -
  let ?s = "ystart [''  ab c'' @ [CHR 0x0D], CHR 0x0A # ''xy'']"
  have w: "ywf ?s" by code_simp
  have n: "ypending ?s \<noteq> []" "dropWhile yeol (ypending ?s) \<noteq> []" by code_simp+
  have v: "[VStr ''zz''][0 := VStr (take (nat (4 - 1)) (yline (ypending ?s)))] = [VStr ''  a'']"
    "yafter_eol (yline_tail (ypending ?s)) = ''xy''"
    "[VStr ''zz''][0 := VStr (take (nat (4 - 1)) (yline (dropWhile yeol (ypending ?s))))]
      = [VStr ''  a'']"
    "yafter_eol (yline_tail (dropWhile yeol (ypending ?s))) = ''xy''"
    by code_simp+
  have w0: "ywf (ystart [])" by code_simp
  have n0: "ypending (ystart []) = []" "dropWhile yeol (ypending (ystart [])) = []"
    by code_simp+
  from yline_readers [OF w, of 0 4 "[VStr ''zz'']"] n
  have a: "fst (ygetline_ok 0 4 [VStr ''zz''] ?s) = 1 \<and>
    fst (snd (ygetline_ok 0 4 [VStr ''zz''] ?s))
      = [VStr ''zz''][0 := VStr (take (nat (4 - 1)) (yline (ypending ?s)))] \<and>
    ypending (snd (snd (ygetline_ok 0 4 [VStr ''zz''] ?s))) = yafter_eol (yline_tail (ypending ?s)) \<and>
    fst (yread_line_ok 0 4 [VStr ''zz''] ?s) = 1 \<and>
    fst (snd (yread_line_ok 0 4 [VStr ''zz''] ?s))
      = [VStr ''zz''][0 := VStr (take (nat (4 - 1)) (yline (dropWhile yeol (ypending ?s))))] \<and>
    ypending (snd (snd (yread_line_ok 0 4 [VStr ''zz''] ?s)))
      = yafter_eol (yline_tail (dropWhile yeol (ypending ?s)))"
    by blast
  from yline_readers [OF w0, of 0 4 "[VStr ''zz'']"] n0
  have b: "fst (ygetline_ok 0 4 [VStr ''zz''] (ystart [])) = 0 \<and>
    fst (snd (ygetline_ok 0 4 [VStr ''zz''] (ystart []))) = [VStr ''zz''] \<and>
    fst (yread_line_ok 0 4 [VStr ''zz''] (ystart [])) = 0 \<and>
    fst (snd (yread_line_ok 0 4 [VStr ''zz''] (ystart []))) = [VStr ''zz'']"
    by blast
  from a b w n w0 n0 show ?thesis unfolding v by blast
qed

text \<open>
  Claim C7, where it fails. On the input that is one \<^verbatim>\<open>\n\<close> and nothing more,
  \<^verbatim>\<open>yread_line_ok\<close> reads that byte (\<^verbatim>\<open>yptr\<close> is one byte on) and yet returns 0,
  where \<^verbatim>\<open>ygetline_ok\<close> returns 1 with the empty line (and has consumed the
  terminator). On \<^verbatim>\<open>\n\rab\<close> it skips the
  two leading white space bytes and stores \<^verbatim>\<open>ab\<close>, where \<^verbatim>\<open>ygetline_ok\<close> stores
  the empty line.
\<close>

theorem yread_line_ok_skips_line_ends:
  "ypending (ystart [[CHR 0x0A]]) = [CHR 0x0A] \<and>
   fst (yread_line_ok 0 10 [VStr ''zz''] (ystart [[CHR 0x0A]])) = 0 \<and>
   yptr (snd (snd (yread_line_ok 0 10 [VStr ''zz''] (ystart [[CHR 0x0A]])))) = 1 \<and>
   fst (ygetline_ok 0 10 [VStr ''zz''] (ystart [[CHR 0x0A]])) = 1 \<and>
   fst (snd (ygetline_ok 0 10 [VStr ''zz''] (ystart [[CHR 0x0A]]))) = [VStr []] \<and>
   yptr (snd (snd (ygetline_ok 0 10 [VStr ''zz''] (ystart [[CHR 0x0A]])))) = 1 \<and>
   isspace 10 \<and> isspace 13 \<and>
   fst (snd (yread_line_ok 0 10 [VStr ''zz''] (ystart [CHR 0x0A # CHR 0x0D # ''ab''])))
     = [VStr ''ab''] \<and>
   fst (snd (ygetline_ok 0 10 [VStr ''zz''] (ystart [CHR 0x0A # CHR 0x0D # ''ab''])))
     = [VStr []]"
  by code_simp

end
